theory Spec2Isabelle
  imports Main "HOL-Library.Word" "HOL-Library.Multiset" "HOL-Library.Monad_Syntax"
begin

unbundle bit_operations_syntax

section \<open>Address algebra\<close>

text \<open>
  An address is an immutable byte sequence; all addresses of one table have the same
  length. The address algebra (\<open>proximity\<close>, \<open>ProxCmp\<close>) lives in a file of the
  repository that is not among the sources at hand, so it is modelled from the
  specification.
\<close>

type_synonym Address = "8 word list"

text \<open>The number of leading zero bits of one byte.\<close>

definition lz8 :: "8 word \<Rightarrow> nat" where
  "lz8 w = length (takeWhile (\<lambda>j. \<not> bit w (7 - j)) [0..<8])"

text \<open>
  Modelled from the spec: \<open>proximity\<close> (address.go is missing). "The count of leading
  identical bits" of the two addresses, that is the number of leading zero bits of
  \<open>a XOR b\<close>; the saturation at \<open>MaxProx\<close> is done by \<open>proximityBin\<close> below.
\<close>

fun proximity :: "Address \<Rightarrow> Address \<Rightarrow> int" where
  "proximity (a # as) (b # bs) =
     (if a = b then 8 + proximity as bs else int (lz8 (a XOR b)))"
| "proximity _ _ = 0"

text \<open>
  Modelled from the spec: the XOR metric (address.go is missing). The distance of two
  addresses is the big-endian value of their bytewise XOR.
\<close>

fun distance_from :: "nat \<Rightarrow> Address \<Rightarrow> Address \<Rightarrow> nat" where
  "distance_from acc (a # as) (b # bs) = distance_from (acc * 256 + unat (a XOR b)) as bs"
| "distance_from acc _ _ = acc"

definition distance :: "Address \<Rightarrow> Address \<Rightarrow> nat" where
  "distance a b = distance_from 0 a b"

text \<open>
  Modelled from the spec: \<open>ProxCmp\<close> (address.go is missing). "Sign of
  \<open>distance(target,x) - distance(target,y)\<close> under XOR metric".
\<close>

definition ProxCmp :: "Address \<Rightarrow> Address \<Rightarrow> Address \<Rightarrow> int" where
  "ProxCmp target x y = sgn (int (distance target x) - int (distance target y))"

section \<open>Peers, records and the record database\<close>

text \<open>The \<open>Node\<close> interface: a peer is known to the table by its address and URL.\<close>

record node =
  Addr :: Address
  Url :: string

text \<open>
  A record of the node record database. Records are shared between the per-bin
  sequences and the address index; the model keeps them in the index and lets the
  per-bin sequences name them by address.
\<close>

record NodeRecord =
  rec_Addr :: Address
  rec_Url :: string
  rec_node :: "node option"
  connected :: bool

record KadDb =
  Nodes :: "Address list list"
  index :: "Address \<rightharpoonup> NodeRecord"

record KadParams =
  MaxProx :: int
  ProxBinSize :: int
  BucketSize :: int

definition NewKadParams :: KadParams where
  "NewKadParams = \<lparr>MaxProx = 8, ProxBinSize = 4, BucketSize = 3\<rparr>"

text \<open>
  Modelled from the spec: \<open>newKadDb\<close> (kaddb.go is missing). One empty record
  sequence per bin and an empty index.
\<close>

definition newKadDb :: "Address \<Rightarrow> KadParams \<Rightarrow> KadDb" where
  "newKadDb a params = \<lparr>Nodes = replicate (nat (MaxProx params + 1)) [], index = Map.empty\<rparr>"

text \<open>
  Modelled from the spec: \<open>findOrCreate\<close> (kaddb.go is missing). "Returns existing or
  freshly appended record": a record found in the index is returned with its URL
  refreshed, otherwise a fresh record is appended to the bin's sequence and entered in
  the index. \<open>None\<close> is the panic of an out-of-range bin.
\<close>

definition findOrCreate :: "KadDb \<Rightarrow> int \<Rightarrow> Address \<Rightarrow> string \<Rightarrow> (NodeRecord \<times> KadDb) option" where
  "findOrCreate d i a url =
     (case index d a of
        Some r \<Rightarrow>
          (let r' = r\<lparr>rec_Url := url\<rparr> in Some (r', d\<lparr>index := (index d)(a \<mapsto> r')\<rparr>))
      | None \<Rightarrow>
          if 0 \<le> i \<and> i < int (length (Nodes d)) then
            (let r = \<lparr>rec_Addr = a, rec_Url = url, rec_node = None, connected = False\<rparr>
             in Some (r, d\<lparr>Nodes := (Nodes d)[nat i := Nodes d ! nat i @ [a]],
                            index := (index d)(a \<mapsto> r)\<rparr>))
          else None)"

section \<open>Buckets\<close>

record bucket =
  size :: int
  nodes :: "node list"

datatype error =
    CallbackError Address string
  | BucketFull
  | InsufficientNodes int int

text \<open>\<open>bucket.insert\<close>: a full bucket refuses the peer and is left as it is.\<close>

definition insert :: "bucket \<Rightarrow> node \<Rightarrow> error + bucket" where
  "insert b n =
     (if int (length (nodes b)) \<ge> size b then Inl BucketFull
      else Inr (b\<lparr>nodes := nodes b @ [n]\<rparr>))"

text \<open>Indexing a slice of buckets; \<open>None\<close> is Go's index-out-of-range panic.\<close>

definition bucket_at :: "bucket list \<Rightarrow> int \<Rightarrow> bucket option" where
  "bucket_at bs i = (if 0 \<le> i \<and> i < int (length bs) then Some (bs ! nat i) else None)"

section \<open>The routing table\<close>

record Kademlia =
  addr :: Address
  params :: KadParams
  proxLimit :: int
  proxSize :: int
  count :: int
  buckets :: "bucket list"
  db :: KadDb

text \<open>
  \<open>New\<close>: \<open>make\<close> panics on a negative length (\<open>None\<close>); the constructor overwrites
  \<open>ProxBinSize\<close> with 4.
\<close>

definition New :: "Address \<Rightarrow> KadParams \<Rightarrow> Kademlia option" where
  "New a ps =
     (if MaxProx ps + 1 < 0 then None
      else
        (let ps' = ps\<lparr>ProxBinSize := 4\<rparr> in
         Some \<lparr>addr = a, params = ps', proxLimit = 0, proxSize = 0, count = 0,
               buckets = replicate (nat (MaxProx ps + 1)) \<lparr>size = BucketSize ps, nodes = []\<rparr>,
               db = newKadDb a ps'\<rparr>))"

definition proximityBin :: "Kademlia \<Rightarrow> Address \<Rightarrow> int" where
  "proximityBin k other =
     (let ret = proximity (addr k) other
      in if ret > MaxProx (params k) then MaxProx (params k) else ret)"

text \<open>
  The two loops of \<open>setProxLimit\<close>. Expansion (after a removal) lowers \<open>proxLimit\<close>;
  contraction (after an insertion) raises it.
\<close>

function setProxLimit_expand :: "int \<Rightarrow> Kademlia \<Rightarrow> Kademlia option" where
  "setProxLimit_expand r k =
     (if (proxSize k < ProxBinSize (params k) \<or> r < proxLimit k) \<and> proxLimit k > 0 then
        (case bucket_at (buckets k) (proxLimit k - 1) of
           None \<Rightarrow> None
         | Some b \<Rightarrow>
             setProxLimit_expand r
               (k\<lparr>proxLimit := proxLimit k - 1,
                  proxSize := proxSize k + int (length (nodes b))\<rparr>))
      else Some k)"
  by pat_completeness auto
termination
  by (relation "measure (\<lambda>(r, k). nat (proxLimit k))") auto

declare setProxLimit_expand.simps [simp del]

function setProxLimit_contract :: "Kademlia \<Rightarrow> Kademlia option" where
  "setProxLimit_contract k =
     (if proxLimit k < MaxProx (params k) then
        (case bucket_at (buckets k) (proxLimit k) of
           None \<Rightarrow> None
         | Some b \<Rightarrow>
             if length (nodes b) > 0
                \<and> proxSize k - int (length (nodes b)) \<ge> ProxBinSize (params k)
             then setProxLimit_contract
                    (k\<lparr>proxSize := proxSize k - int (length (nodes b)),
                       proxLimit := proxLimit k + 1\<rparr>)
             else Some k)
      else Some k)"
  by pat_completeness auto
termination
  by (relation "measure (\<lambda>k. nat (MaxProx (params k) - proxLimit k))") auto

declare setProxLimit_contract.simps [simp del]

definition setProxLimit_adjust :: "int \<Rightarrow> bool \<Rightarrow> Kademlia \<Rightarrow> Kademlia option" where
  "setProxLimit_adjust r off k =
     (if off then setProxLimit_expand r (k\<lparr>proxSize := proxSize k - 1\<rparr>)
      else setProxLimit_contract (k\<lparr>proxSize := proxSize k + 1\<rparr>))"

definition setProxLimit :: "int \<Rightarrow> bool \<Rightarrow> Kademlia \<Rightarrow> Kademlia option" where
  "setProxLimit r off k =
     (if r < proxLimit k then
        (case bucket_at (buckets k) r of
           None \<Rightarrow> None
         | Some b \<Rightarrow> if length (nodes b) > 0 then Some k else setProxLimit_adjust r off k)
      else setProxLimit_adjust r off k)"

text \<open>
  \<open>On\<close>. The callback receives the record (a pointer in the source, so it may change
  it) and the peer, and may fail. The result is \<open>None\<close> when the call panics, otherwise
  the table after the call and the error returned, if any.
\<close>

type_synonym on_cb = "NodeRecord \<Rightarrow> node \<Rightarrow> NodeRecord \<times> string option"

definition set_record :: "Kademlia \<Rightarrow> KadDb \<Rightarrow> Address \<Rightarrow> NodeRecord \<Rightarrow> Kademlia" where
  "set_record k d a r = k\<lparr>db := d\<lparr>index := (index d)(a \<mapsto> r)\<rparr>\<rparr>"

definition On_insert :: "Kademlia \<Rightarrow> int \<Rightarrow> node \<Rightarrow> (Kademlia \<times> error option) option" where
  "On_insert k i n =
     (case bucket_at (buckets k) i of
        None \<Rightarrow> None
      | Some b \<Rightarrow>
          (case insert b n of
             Inl err \<Rightarrow> Some (k, Some err)
           | Inr b' \<Rightarrow>
               map_option (\<lambda>k'. (k', None))
                 (setProxLimit i False
                    (k\<lparr>buckets := (buckets k)[nat i := b'], count := count k + 1\<rparr>))))"

definition On :: "node \<Rightarrow> on_cb option \<Rightarrow> Kademlia \<Rightarrow> (Kademlia \<times> error option) option" where
  "On n cb k =
     (let i = proximityBin k (Addr n) in
      case findOrCreate (db k) i (Addr n) (Url n) of
        None \<Rightarrow> None
      | Some (record, d) \<Rightarrow>
          (let record1 = record\<lparr>rec_node := Some n\<rparr> in
           case cb of
             None \<Rightarrow> On_insert (set_record k d (Addr n) (record1\<lparr>connected := True\<rparr>)) i n
           | Some f \<Rightarrow>
               (case f record1 n of
                  (record2, Some e) \<Rightarrow>
                    Some (set_record k d (Addr n) record2, Some (CallbackError (Addr n) e))
                | (record2, None) \<Rightarrow>
                    On_insert (set_record k d (Addr n) (record2\<lparr>connected := True\<rparr>)) i n)))"

text \<open>
  The removal loop of \<open>Off\<close>: the slice shrinks while the index keeps advancing.
\<close>

function Off_remove :: "Address \<Rightarrow> nat \<Rightarrow> node list \<Rightarrow> bool \<Rightarrow> node list \<times> bool" where
  "Off_remove a i ns found =
     (if i < length ns then
        (if a = Addr (ns ! i) then Off_remove a (i + 1) (take i ns @ drop (i + 1) ns) True
         else Off_remove a (i + 1) ns found)
      else (ns, found))"
  by pat_completeness auto
termination
  by (relation "measure (\<lambda>(a, i, ns, found). length ns - i)") auto

declare Off_remove.simps [simp del]

type_synonym off_cb = "NodeRecord \<Rightarrow> node option \<Rightarrow> NodeRecord"

text \<open>
  The tail of \<open>Off\<close>: the record of the address is looked up in the index; a missing
  record is a nil dereference (\<open>None\<close>).
\<close>

definition Off_record :: "Kademlia \<Rightarrow> Address \<Rightarrow> off_cb option \<Rightarrow> Kademlia option" where
  "Off_record k a cb =
     (case index (db k) a of
        None \<Rightarrow> None
      | Some r \<Rightarrow>
          (let r1 = (case cb of None \<Rightarrow> r | Some f \<Rightarrow> f r (rec_node r))
           in Some (set_record k (db k) a (r1\<lparr>rec_node := None, connected := False\<rparr>))))"

definition Off :: "node \<Rightarrow> off_cb option \<Rightarrow> Kademlia \<Rightarrow> (Kademlia \<times> error option) option" where
  "Off n cb k =
     (let i = proximityBin k (Addr n) in
      case bucket_at (buckets k) i of
        None \<Rightarrow> None
      | Some b \<Rightarrow>
          (case Off_remove (Addr n) 0 (nodes b) False of
             (ns, found) \<Rightarrow>
               (let k1 = k\<lparr>buckets := (buckets k)[nat i := b\<lparr>nodes := ns\<rparr>]\<rparr> in
                if \<not> found then Some (k1, None)
                else
                  (let k2 = k1\<lparr>count := count k1 - 1\<rparr>;
                       err = (if int (length ns) < size b
                              then Some (InsufficientNodes (int (length ns)) i) else None)
                   in case setProxLimit i True k2 of
                        None \<Rightarrow> None
                      | Some k3 \<Rightarrow>
                          map_option (\<lambda>k'. (k', err)) (Off_record k3 (Addr n) cb)))))"

section \<open>Closest peers\<close>

text \<open>
  Go's \<open>sort.Search\<close>: binary search in \<open>[0, n)\<close> for the least index at which
  \<open>f\<close> holds.
\<close>

function Search_loop :: "(nat \<Rightarrow> bool) \<Rightarrow> nat \<Rightarrow> nat \<Rightarrow> nat" where
  "Search_loop f i j =
     (if i < j then
        (let h = (i + j) div 2
         in if \<not> f h then Search_loop f (h + 1) j else Search_loop f i h)
      else i)"
  by pat_completeness auto
termination
  by (relation "measure (\<lambda>(f, i, j). j - i)") auto

declare Search_loop.simps [simp del]

definition Search :: "nat \<Rightarrow> (nat \<Rightarrow> bool) \<Rightarrow> nat" where
  "Search n f = Search_loop f 0 n"

record nodesByDistance =
  h_nodes :: "node list"
  target :: Address

text \<open>
  \<open>push\<close>: the peer is appended while the list is shorter than \<open>max\<close>, then the
  tail from the insertion point is shifted one place (the last element falls off a
  full list) and the peer is written at the insertion point.
\<close>

definition push :: "nodesByDistance \<Rightarrow> node \<Rightarrow> int \<Rightarrow> nodesByDistance" where
  "push h n mx =
     (let ns = h_nodes h;
          ix = Search (length ns) (\<lambda>i. ProxCmp (target h) (Addr (ns ! i)) (Addr n) \<ge> 0);
          ns1 = (if int (length ns) < mx then ns @ [n] else ns)
      in if ix < length ns1
         then h\<lparr>h_nodes := take ix ns1 @ n # take (length ns1 - ix - 1) (drop ix ns1)\<rparr>
         else h\<lparr>h_nodes := ns1\<rparr>)"

fun sortedByDistanceTo :: "Address \<Rightarrow> node list \<Rightarrow> bool" where
  "sortedByDistanceTo t (x # y # ys) =
     (\<not> ProxCmp t (Addr y) (Addr x) < 0 \<and> sortedByDistanceTo t (y # ys))"
| "sortedByDistanceTo t _ = True"

text \<open>
  The scanning loop of \<open>FindClosest\<close>; \<open>n\<close> counts the peers pushed so far. Reading
  a bucket out of range is a panic (\<open>None\<close>).
\<close>

function FindClosest_loop ::
  "Kademlia \<Rightarrow> int \<Rightarrow> int \<Rightarrow> int \<Rightarrow> int \<Rightarrow> bool \<Rightarrow> int \<Rightarrow> nodesByDistance
     \<Rightarrow> nodesByDistance option" where
  "FindClosest_loop k mx limit idx start down n r =
     (case bucket_at (buckets k) start of
        None \<Rightarrow> None
      | Some b \<Rightarrow>
          (let r' = foldl (\<lambda>h x. push h x limit) r (nodes b);
               n' = n + int (length (nodes b))
           in if (mx = 0 \<and> start \<le> idx \<and> (n' > 0 \<or> start = 0))
                 \<or> (mx > 0 \<and> down \<and> start \<le> idx
                     \<and> (n' \<ge> limit \<or> n' = count k \<or> start = 0))
              then Some r'
              else if down then FindClosest_loop k mx limit idx (start - 1) True n' r'
              else if start = MaxProx (params k) then
                (if idx = 0 then Some r'
                 else FindClosest_loop k mx limit idx (idx - 1) True n' r')
              else FindClosest_loop k mx limit idx (start + 1) False n' r'))"
  by pat_completeness auto
termination
  by (relation "measures [\<lambda>(k, mx, limit, idx, start, down, n, r). if down then 0 else 1,
                          \<lambda>(k, mx, limit, idx, start, down, n, r).
                             if down then nat (start + 1)
                             else nat (int (length (buckets k)) - start)]")
     (auto simp: bucket_at_def split: if_splits)

declare FindClosest_loop.simps [simp del]

definition FindClosest :: "Kademlia \<Rightarrow> Address \<Rightarrow> int \<Rightarrow> node list option" where
  "FindClosest k t mx =
     (let i = proximityBin k t;
          limit = (if mx = 0 then 1000 else mx);
          r = \<lparr>h_nodes = [], target = t\<rparr>
      in map_option h_nodes
           (if i \<ge> proxLimit k
            then FindClosest_loop k mx limit (proxLimit k) (MaxProx (params k)) True 0 r
            else FindClosest_loop k mx limit i i False 0 r))"

section \<open>Sequences of operations\<close>

datatype op = OpOn node "on_cb option" | OpOff node "off_cb option"

fun apply_op :: "op \<Rightarrow> Kademlia \<Rightarrow> (Kademlia \<times> error option) option" where
  "apply_op (OpOn n cb) k = On n cb k"
| "apply_op (OpOff n cb) k = Off n cb k"

text \<open>
  A sequence of operations on a table. A returned error does not stop the sequence;
  a panic does.
\<close>

fun run_ops :: "op list \<Rightarrow> Kademlia \<Rightarrow> Kademlia option" where
  "run_ops [] k = Some k"
| "run_ops (x # xs) k =
     (case apply_op x k of None \<Rightarrow> None | Some (k', e) \<Rightarrow> run_ops xs k')"

text \<open>The number of peers held in all buckets, and in the buckets from a bin upward.\<close>

definition bucket_total :: "Kademlia \<Rightarrow> int" where
  "bucket_total k = sum_list (map (\<lambda>b. int (length (nodes b))) (buckets k))"

definition prox_total :: "Kademlia \<Rightarrow> int" where
  "prox_total k =
     sum_list (map (\<lambda>b. int (length (nodes b))) (drop (nat (proxLimit k)) (buckets k)))"

section \<open>The chunk cache\<close>

text \<open>
  A key is a byte slice. Go's \<open>uint\<close> values (bit positions, indices, widths) are
  modelled as natural numbers: they stay far below \<open>2 ^ 64\<close> for the bit widths in use.
\<close>

type_synonym Key = "8 word list"

text \<open>
  Modelled from the spec: the chunk type (its declaration is missing). A chunk is an
  address and payload bytes.
\<close>

record Chunk =
  Key :: Key
  SData :: "8 word list"

definition maxEntries :: nat where "maxEntries = 500"
definition memTreeLW :: nat where "memTreeLW = 2"
definition memTreeFLW :: nat where "memTreeFLW = 14"

text \<open>
  \<open>Key.bits(i, j)\<close>: the \<open>j\<close> bits of the key from bit position \<open>i\<close>. Only the first
  byte index is checked against the size of the key; reading a further byte past the
  end is an index panic (\<open>None\<close>). The mask \<open>(1 << j) - 1\<close> is computed on bytes.
\<close>

function bits_loop :: "Key \<Rightarrow> nat \<Rightarrow> nat \<Rightarrow> nat \<Rightarrow> nat \<Rightarrow> nat option" where
  "bits_loop h ii jj j res =
     (if j \<noteq> 0 then
        (if ii + 1 < length h then
           (if j < 8
            then Some (res + push_bit jj (unat (h ! (ii + 1) AND (push_bit j 1 - 1))))
            else bits_loop h (ii + 1) (jj + 8) (j - 8) (res + push_bit jj (unat (h ! (ii + 1)))))
         else None)
      else Some res)"
  by pat_completeness auto
termination
  by (relation "measure (\<lambda>(h, ii, jj, j, res). j)") auto

declare bits_loop.simps [simp del]

definition bits :: "Key \<Rightarrow> nat \<Rightarrow> nat \<Rightarrow> nat option" where
  "bits h i j =
     (let ii = drop_bit 3 i; jj = i AND 7 in
      if ii \<ge> length h then Some 0
      else if jj + j \<le> 8 then Some (unat (drop_bit jj (h ! ii) AND (push_bit j 1 - 1)))
      else bits_loop h ii (8 - jj) (j - (8 - jj)) (unat (drop_bit jj (h ! ii))))"

text \<open>
  A node of the prefix tree. Nodes live in a store and point to each other by
  reference; the arrays \<open>subtree\<close> (of length \<open>width\<close>) and \<open>access\<close> (of length
  \<open>width - 1\<close>) are functions on indices, read and written through bounds checks.
\<close>

record dpaMemTree =
  subtree :: "nat \<Rightarrow> nat option"
  parent :: "nat option"
  parent_idx :: nat
  node_bits :: nat
  width :: nat
  entry :: "Chunk option"
  access :: "nat \<Rightarrow> 64 word"

record dpaMemStorage =
  heap :: "nat \<Rightarrow> dpaMemTree option"
  next_ref :: nat
  memtree :: "nat option"
  entry_cnt :: "64 word"
  access_cnt :: "64 word"

definition get_subtree :: "dpaMemTree \<Rightarrow> nat \<Rightarrow> nat option option" where
  "get_subtree nd l = (if l < width nd then Some (subtree nd l) else None)"

definition get_access :: "dpaMemTree \<Rightarrow> nat \<Rightarrow> 64 word option" where
  "get_access nd i = (if i < width nd - 1 then Some (access nd i) else None)"

definition set_access :: "dpaMemTree \<Rightarrow> nat \<Rightarrow> 64 word \<Rightarrow> dpaMemTree option" where
  "set_access nd i a = (if i < width nd - 1 then Some (nd\<lparr>access := (access nd)(i := a)\<rparr>) else None)"

definition put_node :: "nat \<Rightarrow> dpaMemTree \<Rightarrow> dpaMemStorage \<Rightarrow> dpaMemStorage" where
  "put_node r nd s = s\<lparr>heap := (heap s)(r \<mapsto> nd)\<rparr>"

text \<open>\<open>newTreeNode\<close>: a fresh node, linked into its parent when there is one.\<close>

definition newTreeNode :: "nat \<Rightarrow> nat option \<Rightarrow> nat \<Rightarrow> dpaMemStorage \<Rightarrow> (nat \<times> dpaMemStorage) option" where
  "newTreeNode b par pidx s =
     (let r = next_ref s;
          nd = \<lparr>subtree = (\<lambda>_. None), parent = par, parent_idx = pidx, node_bits = b,
                width = push_bit b 1, entry = None, access = (\<lambda>_. 0)\<rparr>;
          s1 = (put_node r nd s)\<lparr>next_ref := r + 1\<rparr>
      in case par of
           None \<Rightarrow> Some (r, s1)
         | Some p \<Rightarrow>
             do { pn \<leftarrow> heap s1 p;
                  if pidx < width pn
                  then Some (r, put_node p (pn\<lparr>subtree := (subtree pn)(pidx := Some r)\<rparr>) s1)
                  else None })"

text \<open>
  The loop of \<open>update_access\<close>: \<open>oa\<close> is the value of \<open>access[0]\<close> of the starting node
  on entry. The walk goes up through the node's own min-tree and then to the parent.
\<close>

partial_function (option) update_access_loop ::
  "64 word \<Rightarrow> nat \<Rightarrow> nat \<Rightarrow> 64 word \<Rightarrow> dpaMemStorage \<Rightarrow> dpaMemStorage option" where
  "update_access_loop oa node aidx a s =
     do { nd \<leftarrow> heap s node;
          v \<leftarrow> get_access nd aidx;
          if v = oa then
            do { nd1 \<leftarrow> set_access nd aidx a;
                 let s1 = put_node node nd1 s;
                 if aidx > 0 then
                   do { aa \<leftarrow> get_access nd1 (((aidx - 1) XOR 1) + 1);
                        update_access_loop oa node (drop_bit 1 (aidx - 1))
                          (if aa \<noteq> 0 \<and> aa < a then aa else a) s1 }
                 else
                   (case parent nd1 of
                      None \<Rightarrow> Some s1
                    | Some p \<Rightarrow>
                        do { pn \<leftarrow> heap s1 p;
                             nn \<leftarrow> get_subtree pn (parent_idx nd1 XOR 1);
                             aa \<leftarrow> (case nn of
                                      None \<Rightarrow> Some 0
                                    | Some c \<Rightarrow> do { cn \<leftarrow> heap s1 c; get_access cn 0 });
                             update_access_loop oa p (drop_bit 1 (width pn + parent_idx nd1 - 2))
                               (if aa \<noteq> 0 \<and> aa < a then aa else a) s1 }) }
          else Some s }"


definition update_access :: "nat \<Rightarrow> 64 word \<Rightarrow> dpaMemStorage \<Rightarrow> dpaMemStorage option" where
  "update_access node a s =
     do { nd \<leftarrow> heap s node;
          oa \<leftarrow> get_access nd 0;
          update_access_loop oa node 0 a s }"

text \<open>
  \<open>add\<close>, first loop: descend along the key while the node holds no entry; an empty
  slot gets a fresh node, which ends the descent.
\<close>

partial_function (option) add_descend ::
  "Key \<Rightarrow> nat \<Rightarrow> nat \<Rightarrow> dpaMemStorage \<Rightarrow> (nat \<times> nat \<times> dpaMemStorage) option" where
  "add_descend k node bitpos s =
     do { nd \<leftarrow> heap s node;
          case entry nd of
            Some e \<Rightarrow> Some (node, bitpos, s)
          | None \<Rightarrow>
              do { l \<leftarrow> bits k bitpos (node_bits nd);
                   st \<leftarrow> get_subtree nd l;
                   case st of
                     None \<Rightarrow>
                       do { (c, s1) \<leftarrow> newTreeNode memTreeLW (Some node) l s;
                            Some (c, bitpos + node_bits nd, s1) }
                   | Some c \<Rightarrow> add_descend k c (bitpos + node_bits nd) s } }"


definition child_or_new :: "nat \<Rightarrow> nat \<Rightarrow> dpaMemStorage \<Rightarrow> (nat \<times> dpaMemStorage) option" where
  "child_or_new node l s =
     do { nd \<leftarrow> heap s node;
          st \<leftarrow> get_subtree nd l;
          case st of
            None \<Rightarrow> newTreeNode memTreeLW (Some node) l s
          | Some c \<Rightarrow> Some (c, s) }"

text \<open>
  \<open>add\<close>, second loop: while the node holds an entry, move that entry one level down
  and step to the slot of the new key.
\<close>

partial_function (option) add_split ::
  "Key \<Rightarrow> nat \<Rightarrow> nat \<Rightarrow> dpaMemStorage \<Rightarrow> (nat \<times> dpaMemStorage) option" where
  "add_split k node bitpos s =
     do { nd \<leftarrow> heap s node;
          case entry nd of
            None \<Rightarrow> Some (node, s)
          | Some e \<Rightarrow>
              do { l \<leftarrow> bits (Key e) bitpos (node_bits nd);
                   (st, s1) \<leftarrow> child_or_new node l s;
                   stn \<leftarrow> heap s1 st;
                   let s2 = put_node st (stn\<lparr>entry := Some e\<rparr>) s1;
                   nd2 \<leftarrow> heap s2 node;
                   let s3 = put_node node (nd2\<lparr>entry := None\<rparr>) s2;
                   a0 \<leftarrow> get_access nd2 0;
                   s4 \<leftarrow> update_access st a0 s3;
                   nd4 \<leftarrow> heap s4 node;
                   l' \<leftarrow> bits k bitpos (node_bits nd4);
                   (st', s5) \<leftarrow> child_or_new node l' s4;
                   add_split k st' (bitpos + node_bits nd4) s5 } }"


definition add :: "Chunk \<Rightarrow> dpaMemStorage \<Rightarrow> dpaMemStorage option" where
  "add c s0 =
     (let s = s0\<lparr>access_cnt := access_cnt s0 + 1\<rparr> in
      do { root \<leftarrow> memtree s;
           (node, bitpos, s1) \<leftarrow> add_descend (Key c) root 0 s;
           nd \<leftarrow> heap s1 node;
           case entry nd of
             None \<Rightarrow>
               do { s2 \<leftarrow> update_access node (access_cnt s1) (put_node node (nd\<lparr>entry := Some c\<rparr>) s1);
                    Some (s2\<lparr>entry_cnt := entry_cnt s2 + 1\<rparr>) }
           | Some e \<Rightarrow>
               if Key e = Key c then update_access node (access_cnt s1) s1
               else
                 do { (node', s2) \<leftarrow> add_split (Key c) node bitpos s1;
                      nd' \<leftarrow> heap s2 node';
                      s3 \<leftarrow> update_access node' (access_cnt s2) (put_node node' (nd'\<lparr>entry := Some c\<rparr>) s2);
                      Some (s3\<lparr>entry_cnt := entry_cnt s3 + 1\<rparr>) } })"

text \<open>\<open>find\<close>: the descent, then the key comparison; a hit refreshes the access.\<close>

partial_function (option) find_descend ::
  "Key \<Rightarrow> nat \<Rightarrow> nat \<Rightarrow> dpaMemStorage \<Rightarrow> (nat \<times> Chunk) option option" where
  "find_descend k node bitpos s =
     do { nd \<leftarrow> heap s node;
          case entry nd of
            Some e \<Rightarrow> Some (Some (node, e))
          | None \<Rightarrow>
              do { l \<leftarrow> bits k bitpos (node_bits nd);
                   st \<leftarrow> get_subtree nd l;
                   case st of
                     None \<Rightarrow> Some None
                   | Some c \<Rightarrow> find_descend k c (bitpos + node_bits nd) s } }"


definition find :: "Key \<Rightarrow> dpaMemStorage \<Rightarrow> (Chunk option \<times> dpaMemStorage) option" where
  "find k s =
     do { root \<leftarrow> memtree s;
          r \<leftarrow> find_descend k root 0 s;
          case r of
            None \<Rightarrow> Some (None, s)
          | Some (node, e) \<Rightarrow>
              if Key e = k then
                do { let s1 = s\<lparr>access_cnt := access_cnt s + 1\<rparr>;
                     s2 \<leftarrow> update_access node (access_cnt s1) s1;
                     Some (Some e, s2) }
              else Some (None, s) }"

text \<open>
  \<open>remove_oldest\<close>. Inside a node the descent follows the minimum through the node's
  min-tree, writing the sibling's value over each slot it leaves; \<open>None\<close> is
  \<open>panic(nil)\<close> (or an index panic).
\<close>

function remove_inner :: "64 word \<Rightarrow> dpaMemTree \<Rightarrow> nat \<Rightarrow> (dpaMemTree \<times> nat) option" where
  "remove_inner av nd aidx =
     (if aidx < width nd div 2 - 1 then
        do { l \<leftarrow> get_access nd (aidx * 2 + 1);
             r \<leftarrow> get_access nd (aidx * 2 + 2);
             if av = l then
               do { nd1 \<leftarrow> set_access nd aidx r; remove_inner av nd1 (aidx * 2 + 1) }
             else if av = r then
               do { nd1 \<leftarrow> set_access nd aidx l; remove_inner av nd1 (aidx * 2 + 2) }
             else None }
      else Some (nd, aidx))"
  by pat_completeness auto
termination
  by (relation "measure (\<lambda>(av, nd, aidx). width nd div 2 - 1 - aidx)")
     (auto simp: set_access_def split: if_splits)

declare remove_inner.simps [simp del]

definition access0 :: "dpaMemStorage \<Rightarrow> nat \<Rightarrow> 64 word option" where
  "access0 s c = do { cn \<leftarrow> heap s c; get_access cn 0 }"

partial_function (option) remove_descend :: "nat \<Rightarrow> dpaMemStorage \<Rightarrow> (nat \<times> dpaMemStorage) option" where
  "remove_descend node s =
     do { nd \<leftarrow> heap s node;
          case entry nd of
            Some e \<Rightarrow> Some (node, s)
          | None \<Rightarrow>
              do { av \<leftarrow> get_access nd 0;
                   (nd1, aidx) \<leftarrow> remove_inner av nd 0;
                   let s1 = put_node node nd1 s;
                   if aidx * 2 + 2 < width nd1 then None
                   else
                     do { let pidx = aidx * 2 + 2 - width nd1;
                          c0 \<leftarrow> get_subtree nd1 pidx;
                          a0 \<leftarrow> (case c0 of None \<Rightarrow> Some None | Some c \<Rightarrow> map_option Some (access0 s1 c));
                          if c0 \<noteq> None \<and> a0 = Some av then
                            do { c1 \<leftarrow> get_subtree nd1 (pidx + 1);
                                 v \<leftarrow> (case c1 of None \<Rightarrow> Some 0 | Some c \<Rightarrow> access0 s1 c);
                                 nd2 \<leftarrow> set_access nd1 aidx v;
                                 remove_descend (the c0) (put_node node nd2 s1) }
                          else
                            do { c1 \<leftarrow> get_subtree nd1 (pidx + 1);
                                 a1 \<leftarrow> (case c1 of None \<Rightarrow> Some None | Some c \<Rightarrow> map_option Some (access0 s1 c));
                                 if c1 \<noteq> None \<and> a1 = Some av then
                                   do { v \<leftarrow> (case c0 of None \<Rightarrow> Some 0 | Some c \<Rightarrow> access0 s1 c);
                                        nd2 \<leftarrow> set_access nd1 aidx v;
                                        remove_descend (the c1) (put_node node nd2 s1) }
                                 else None } } } }"


text \<open>The upward walk that ends \<open>remove_oldest\<close>.\<close>

definition raise_min :: "nat \<Rightarrow> nat \<Rightarrow> 64 word \<Rightarrow> dpaMemStorage \<Rightarrow> dpaMemStorage option" where
  "raise_min node aidx aa s =
     (if aa \<noteq> 0 then
        do { nd \<leftarrow> heap s node;
             v \<leftarrow> get_access nd aidx;
             if aa < v \<or> v = 0
             then do { nd1 \<leftarrow> set_access nd aidx aa; Some (put_node node nd1 s) }
             else Some s }
      else Some s)"

partial_function (option) remove_ascend :: "nat \<Rightarrow> nat \<Rightarrow> dpaMemStorage \<Rightarrow> dpaMemStorage option" where
  "remove_ascend node aidx s =
     do { nd \<leftarrow> heap s node;
          aa \<leftarrow> get_access nd aidx;
          if aidx > 0 then
            do { s1 \<leftarrow> raise_min node (drop_bit 1 (aidx - 1)) aa s;
                 remove_ascend node (drop_bit 1 (aidx - 1)) s1 }
          else
            (case parent nd of
               None \<Rightarrow> Some s
             | Some p \<Rightarrow>
                 do { pn \<leftarrow> heap s p;
                      s1 \<leftarrow> raise_min p (drop_bit 1 (width pn + parent_idx nd - 2)) aa s;
                      remove_ascend p (drop_bit 1 (width pn + parent_idx nd - 2)) s1 }) }"


definition remove_oldest :: "dpaMemStorage \<Rightarrow> dpaMemStorage option" where
  "remove_oldest s =
     do { root \<leftarrow> memtree s;
          (node, s1) \<leftarrow> remove_descend root s;
          nd \<leftarrow> heap s1 node;
          let s2 = (put_node node (nd\<lparr>entry := None\<rparr>) s1)\<lparr>entry_cnt := entry_cnt s1 - 1\<rparr>;
          nd2 \<leftarrow> heap s2 node;
          nd3 \<leftarrow> set_access nd2 0 0;
          remove_ascend node 0 (put_node node nd3 s2) }"

definition Put :: "Chunk \<Rightarrow> dpaMemStorage \<Rightarrow> dpaMemStorage option" where
  "Put req s =
     do { s1 \<leftarrow> (if unat (entry_cnt s) \<ge> maxEntries then remove_oldest s else Some s);
          add req s1 }"

definition Get :: "Chunk \<Rightarrow> dpaMemStorage \<Rightarrow> dpaMemStorage option" where
  "Get req s = map_option snd (find (Key req) s)"

text \<open>The zero value of the storage, and \<open>Init\<close>.\<close>

definition zero_storage :: dpaMemStorage where
  "zero_storage = \<lparr>heap = Map.empty, next_ref = 0, memtree = None, entry_cnt = 0, access_cnt = 0\<rparr>"

definition Init :: "dpaMemStorage \<Rightarrow> dpaMemStorage option" where
  "Init s = do { (r, s1) \<leftarrow> newTreeNode memTreeFLW None 0 s; Some (s1\<lparr>memtree := Some r\<rparr>) }"


text \<open>Sequences of cache operations; a panic ends the sequence.\<close>


datatype cache_op = OpPut Chunk | OpGet Chunk

fun run_cache :: "cache_op list \<Rightarrow> dpaMemStorage \<Rightarrow> dpaMemStorage option" where
  "run_cache [] s = Some s"
| "run_cache (OpPut c # xs) s = Put c s \<bind> run_cache xs"
| "run_cache (OpGet c # xs) s = Get c s \<bind> run_cache xs"

text \<open>A chunk with a two-byte key, for the concrete caches below.\<close>

definition chunk_of :: "nat \<Rightarrow> nat \<Rightarrow> Chunk" where
  "chunk_of i d = \<lparr>Key = [of_nat (i mod 256), of_nat (i div 256)], SData = [of_nat d]\<rparr>"

definition same_counts :: "dpaMemStorage \<Rightarrow> dpaMemStorage \<Rightarrow> bool" where
  "same_counts s s' \<longleftrightarrow>
     entry_cnt s' = entry_cnt s \<and> access_cnt s' = access_cnt s \<and> memtree s' = memtree s"


section \<open>Invariants of the routing table\<close>


definition resident :: "Kademlia \<Rightarrow> Address list" where
  "resident k = concat (map (\<lambda>b. map Addr (nodes b)) (buckets k))"

fun On_once :: "op list \<Rightarrow> Kademlia \<Rightarrow> bool" where
  "On_once [] k = True"
| "On_once (OpOn n cb # xs) k =
     (Addr n \<notin> set (resident k)
      \<and> (case On n cb k of None \<Rightarrow> True | Some (k', e) \<Rightarrow> On_once xs k'))"
| "On_once (OpOff n cb # xs) k =
     (case Off n cb k of None \<Rightarrow> True | Some (k', e) \<Rightarrow> On_once xs k')"

definition counted :: "Kademlia \<Rightarrow> bool" where
  "counted k \<longleftrightarrow>
     count k = bucket_total k \<and> (\<forall>b \<in> set (buckets k). distinct (map Addr (nodes b)))"

definition table_inv :: "Kademlia \<Rightarrow> bool" where
  "table_inv k \<longleftrightarrow>
     0 \<le> MaxProx (params k)
     \<and> int (length (buckets k)) = MaxProx (params k) + 1
     \<and> length (Nodes (db k)) = length (buckets k)
     \<and> 0 \<le> proxLimit k \<and> proxLimit k \<le> MaxProx (params k)
     \<and> (\<forall>b \<in> set (buckets k). size b = BucketSize (params k)
            \<and> (\<forall>n \<in> set (nodes b). index (db k) (Addr n) \<noteq> None))
     \<and> bucket_total k \<le> count k"

text \<open>
  Notions for the scan of \<open>FindClosest\<close>: a list sorted by distance to a target, the
  number of peers in the buckets from a bin upward, the state of the result list after
  \<open>m\<close> peers were pushed, the test that ends a downward scan at bin \<open>s\<close>, and the
  property that no bucket below \<open>proxLimit\<close> is empty.
\<close>


definition sorted_to :: "Address \<Rightarrow> node list \<Rightarrow> bool" where
  "sorted_to t ns = sorted (map (\<lambda>x. distance t (Addr x)) ns)"

definition peers_from :: "Kademlia \<Rightarrow> int \<Rightarrow> int" where
  "peers_from k j = sum_list (map (\<lambda>b. int (length (nodes b))) (drop (nat j) (buckets k)))"

definition nodes_from :: "Kademlia \<Rightarrow> int \<Rightarrow> node list" where
  "nodes_from k j = concat (map nodes (drop (nat j) (buckets k)))"

definition result_inv :: "Address \<Rightarrow> int \<Rightarrow> nodesByDistance \<Rightarrow> int \<Rightarrow> bool" where
  "result_inv t limit r m \<longleftrightarrow>
     sorted_to t (h_nodes r) \<and> target r = t \<and> int (length (h_nodes r)) = min m limit"

definition brk :: "Kademlia \<Rightarrow> int \<Rightarrow> int \<Rightarrow> int \<Rightarrow> bool" where
  "brk k mx limit s \<longleftrightarrow>
     (mx = 0 \<and> (peers_from k s > 0 \<or> s = 0))
     \<or> (mx > 0 \<and> (peers_from k s \<ge> limit \<or> peers_from k s = count k \<or> s = 0))"

definition below_nonempty :: "Kademlia \<Rightarrow> bool" where
  "below_nonempty k \<longleftrightarrow> (\<forall>j. 0 \<le> j \<and> j < proxLimit k \<longrightarrow> nodes (buckets k ! nat j) \<noteq> [])"

text \<open>A peer with a one-byte address, for the concrete tables below.\<close>

definition peer :: "8 word \<Rightarrow> node" where
  "peer w = \<lparr>Addr = [w], Url = []\<rparr>"

text \<open>A callback that refuses every peer.\<close>

definition reject :: on_cb where
  "reject r n = (r, Some ''refused'')"

lemma expand_frame:
  "setProxLimit_expand r k = Some k' \<Longrightarrow>
     \<exists>pl ps. k' = k\<lparr>proxLimit := pl, proxSize := ps\<rparr> \<and> pl \<le> proxLimit k \<and> (0 \<le> proxLimit k \<longrightarrow> 0 \<le> pl)"
proof (induction r k rule: setProxLimit_expand.induct)
  case (1 r k)
  show ?case
  proof (cases "(proxSize k < ProxBinSize (params k) \<or> r < proxLimit k) \<and> proxLimit k > 0")
    case True
    then obtain b where b: "bucket_at (buckets k) (proxLimit k - 1) = Some b"
      using "1.prems" by (subst (asm) setProxLimit_expand.simps) (auto split: option.splits)
    let ?k1 = "k\<lparr>proxLimit := proxLimit k - 1, proxSize := proxSize k + int (length (nodes b))\<rparr>"
    have "setProxLimit_expand r ?k1 = Some k'"
      using "1.prems" True b by (subst (asm) setProxLimit_expand.simps) simp
    from "1.IH"[OF True b this] obtain pl ps where
      "k' = ?k1\<lparr>proxLimit := pl, proxSize := ps\<rparr>" "pl \<le> proxLimit ?k1" "0 \<le> proxLimit ?k1 \<longrightarrow> 0 \<le> pl"
      by blast
    then show ?thesis using True by (intro exI[of _ pl] exI[of _ ps]) auto
  next
    case False
    then have "k' = k" using "1.prems" by (subst (asm) setProxLimit_expand.simps) auto
    then show ?thesis by (intro exI[of _ "proxLimit k"] exI[of _ "proxSize k"]) auto
  qed
qed

lemma expand_total:
  "0 \<le> proxLimit k \<Longrightarrow> proxLimit k \<le> int (length (buckets k)) \<Longrightarrow>
     \<exists>k'. setProxLimit_expand r k = Some k'"
proof (induction r k rule: setProxLimit_expand.induct)
  case (1 r k)
  show ?case
  proof (cases "(proxSize k < ProxBinSize (params k) \<or> r < proxLimit k) \<and> proxLimit k > 0")
    case True
    then have b: "bucket_at (buckets k) (proxLimit k - 1) = Some (buckets k ! nat (proxLimit k - 1))"
      using "1.prems" by (auto simp: bucket_at_def)
    let ?b = "buckets k ! nat (proxLimit k - 1)"
    let ?k1 = "k\<lparr>proxLimit := proxLimit k - 1, proxSize := proxSize k + int (length (nodes ?b))\<rparr>"
    have "\<exists>k'. setProxLimit_expand r ?k1 = Some k'"
      using "1.IH"[OF True b] "1.prems" True by simp
    then show ?thesis using True b by (subst setProxLimit_expand.simps) simp
  next
    case False
    then show ?thesis by (subst setProxLimit_expand.simps) auto
  qed
qed

lemma contract_frame:
  "setProxLimit_contract k = Some k' \<Longrightarrow>
     \<exists>pl ps. k' = k\<lparr>proxLimit := pl, proxSize := ps\<rparr> \<and> proxLimit k \<le> pl
        \<and> (proxLimit k \<le> MaxProx (params k) \<longrightarrow> pl \<le> MaxProx (params k))"
proof (induction k rule: setProxLimit_contract.induct)
  case (1 k)
  show ?case
  proof (cases "proxLimit k < MaxProx (params k)")
    case True
    then obtain b where b: "bucket_at (buckets k) (proxLimit k) = Some b"
      using "1.prems" by (subst (asm) setProxLimit_contract.simps) (auto split: option.splits)
    show ?thesis
    proof (cases "length (nodes b) > 0 \<and> proxSize k - int (length (nodes b)) \<ge> ProxBinSize (params k)")
      case c: True
      let ?k1 = "k\<lparr>proxSize := proxSize k - int (length (nodes b)), proxLimit := proxLimit k + 1\<rparr>"
      have "setProxLimit_contract ?k1 = Some k'"
        using "1.prems" True b c by (subst (asm) setProxLimit_contract.simps) simp
      from "1.IH"[OF True b c this] obtain pl ps where
        "k' = ?k1\<lparr>proxLimit := pl, proxSize := ps\<rparr>" "proxLimit ?k1 \<le> pl"
        "proxLimit ?k1 \<le> MaxProx (params ?k1) \<longrightarrow> pl \<le> MaxProx (params ?k1)"
        by blast
      then show ?thesis using True by (intro exI[of _ pl] exI[of _ ps]) auto
    next
      case c: False
      then have "k' = k" using "1.prems" True b by (subst (asm) setProxLimit_contract.simps) auto
      then show ?thesis by (intro exI[of _ "proxLimit k"] exI[of _ "proxSize k"]) auto
    qed
  next
    case False
    then have "k' = k" using "1.prems" by (subst (asm) setProxLimit_contract.simps) auto
    then show ?thesis by (intro exI[of _ "proxLimit k"] exI[of _ "proxSize k"]) auto
  qed
qed

lemma contract_total:
  "0 \<le> proxLimit k \<Longrightarrow> int (length (buckets k)) = MaxProx (params k) + 1 \<Longrightarrow>
     \<exists>k'. setProxLimit_contract k = Some k'"
proof (induction k rule: setProxLimit_contract.induct)
  case (1 k)
  show ?case
  proof (cases "proxLimit k < MaxProx (params k)")
    case True
    let ?b = "buckets k ! nat (proxLimit k)"
    have b: "bucket_at (buckets k) (proxLimit k) = Some ?b"
      using "1.prems" True by (auto simp: bucket_at_def)
    show ?thesis
    proof (cases "length (nodes ?b) > 0 \<and> proxSize k - int (length (nodes ?b)) \<ge> ProxBinSize (params k)")
      case c: True
      let ?k1 = "k\<lparr>proxSize := proxSize k - int (length (nodes ?b)), proxLimit := proxLimit k + 1\<rparr>"
      have "\<exists>k'. setProxLimit_contract ?k1 = Some k'"
        using "1.IH"[OF True b c] "1.prems" by simp
      then show ?thesis using True b c by (subst setProxLimit_contract.simps) simp
    next
      case c: False
      then show ?thesis using True b by (subst setProxLimit_contract.simps) auto
    qed
  next
    case False
    then show ?thesis by (subst setProxLimit_contract.simps) auto
  qed
qed

lemma sum_list_update_int:
  "i < length xs \<Longrightarrow> sum_list (xs[i := y]) = sum_list xs - xs ! i + (y::int)"
  by (induction xs arbitrary: i) (auto split: nat.splits)

lemma bucket_atD:
  "bucket_at bs i = Some b \<Longrightarrow> 0 \<le> i \<and> nat i < length bs \<and> b = bs ! nat i"
  by (auto simp: bucket_at_def split: if_splits)

lemma setProxLimit_frame:
  assumes "setProxLimit r off k = Some k'"
  shows "\<exists>pl ps. k' = k\<lparr>proxLimit := pl, proxSize := ps\<rparr>
           \<and> (0 \<le> proxLimit k \<longrightarrow> 0 \<le> pl)
           \<and> (proxLimit k \<le> MaxProx (params k) \<longrightarrow> pl \<le> MaxProx (params k))"
proof -
  have same: "\<exists>pl ps. k = k\<lparr>proxLimit := pl, proxSize := ps\<rparr>
           \<and> (0 \<le> proxLimit k \<longrightarrow> 0 \<le> pl)
           \<and> (proxLimit k \<le> MaxProx (params k) \<longrightarrow> pl \<le> MaxProx (params k))"
    by (intro exI[of _ "proxLimit k"] exI[of _ "proxSize k"]) simp
  have adj: "\<exists>pl ps. k' = k\<lparr>proxLimit := pl, proxSize := ps\<rparr>
           \<and> (0 \<le> proxLimit k \<longrightarrow> 0 \<le> pl)
           \<and> (proxLimit k \<le> MaxProx (params k) \<longrightarrow> pl \<le> MaxProx (params k))"
    if a: "setProxLimit_adjust r off k = Some k'"
  proof (cases off)
    case True
    then have "setProxLimit_expand r (k\<lparr>proxSize := proxSize k - 1\<rparr>) = Some k'"
      using a by (simp add: setProxLimit_adjust_def)
    from expand_frame[OF this] obtain pl ps where
      "k' = k\<lparr>proxSize := proxSize k - 1\<rparr>\<lparr>proxLimit := pl, proxSize := ps\<rparr>"
      "pl \<le> proxLimit k" "0 \<le> proxLimit k \<longrightarrow> 0 \<le> pl" by auto
    then show ?thesis by (intro exI[of _ pl] exI[of _ ps]) auto
  next
    case False
    then have "setProxLimit_contract (k\<lparr>proxSize := proxSize k + 1\<rparr>) = Some k'"
      using a by (simp add: setProxLimit_adjust_def)
    from contract_frame[OF this] obtain pl ps where
      "k' = k\<lparr>proxSize := proxSize k + 1\<rparr>\<lparr>proxLimit := pl, proxSize := ps\<rparr>"
      "proxLimit k \<le> pl" "proxLimit k \<le> MaxProx (params k) \<longrightarrow> pl \<le> MaxProx (params k)" by auto
    then show ?thesis by (intro exI[of _ pl] exI[of _ ps]) auto
  qed
  show ?thesis
    using assms same adj
    by (auto simp: setProxLimit_def split: if_splits option.splits)
qed

lemma setProxLimit_total:
  assumes "0 \<le> proxLimit k" "proxLimit k \<le> MaxProx (params k)"
    "int (length (buckets k)) = MaxProx (params k) + 1" "0 \<le> r"
  shows "\<exists>k'. setProxLimit r off k = Some k'"
proof -
  have "\<exists>k'. setProxLimit_adjust r off k = Some k'"
    using assms expand_total[of "k\<lparr>proxSize := proxSize k - 1\<rparr>" r]
      contract_total[of "k\<lparr>proxSize := proxSize k + 1\<rparr>"]
    by (auto simp: setProxLimit_adjust_def)
  moreover have "r < proxLimit k \<Longrightarrow> bucket_at (buckets k) r \<noteq> None"
    using assms by (auto simp: bucket_at_def)
  ultimately show ?thesis
    by (auto simp: setProxLimit_def split: option.splits)
qed

lemma Off_remove_absent:
  "a \<notin> Addr ` set (drop i ns) \<Longrightarrow> Off_remove a i ns f = (ns, f)"
proof (induction a i ns f rule: Off_remove.induct)
  case (1 a i ns found)
  show ?case
  proof (cases "i < length ns")
    case True
    then have d: "drop i ns = ns ! i # drop (i + 1) ns"
      by (simp add: Cons_nth_drop_Suc)
    then have "a \<noteq> Addr (ns ! i)" "a \<notin> Addr ` set (drop (i + 1) ns)"
      using "1.prems" by auto
    then show ?thesis
      using True "1.IH"(2) by (subst Off_remove.simps) simp
  next
    case False
    then show ?thesis by (subst Off_remove.simps) simp
  qed
qed

lemma Off_remove_distinct:
  "distinct (map Addr ns) \<Longrightarrow>
     Off_remove a i ns f =
       (take i ns @ filter (\<lambda>n. Addr n \<noteq> a) (drop i ns), f \<or> a \<in> Addr ` set (drop i ns))"
proof (induction a i ns f rule: Off_remove.induct)
  case (1 a i ns found)
  show ?case
  proof (cases "i < length ns")
    case True
    then have d: "drop i ns = ns ! i # drop (i + 1) ns"
      by (simp add: Cons_nth_drop_Suc)
    have dist: "distinct (map Addr (drop i ns))"
      using "1.prems" by (simp add: distinct_drop flip: drop_map)
    show ?thesis
    proof (cases "a = Addr (ns ! i)")
      case eq: True
      have notin: "a \<notin> Addr ` set (drop (i + 1) ns)"
        using dist eq d by auto
      have "drop (i + 1) (take i ns @ drop (i + 1) ns) = drop (i + 2) ns"
        using True by (simp add: min_def)
      moreover have "drop (i + 2) ns = drop 1 (drop (i + 1) ns)"
        by simp
      then have "set (drop (i + 2) ns) \<subseteq> set (drop (i + 1) ns)"
        by (simp only: set_drop_subset)
      ultimately have "a \<notin> Addr ` set (drop (i + 1) (take i ns @ drop (i + 1) ns))"
        using notin by auto
      from Off_remove_absent[OF this]
      have "Off_remove a i ns found = (take i ns @ drop (i + 1) ns, True)"
        using True eq by (subst Off_remove.simps) simp
      moreover have "filter (\<lambda>n. Addr n \<noteq> a) (drop (i + 1) ns) = drop (i + 1) ns"
        using notin by (auto simp: filter_id_conv)
      ultimately show ?thesis using d eq by simp
    next
      case ne: False
      have "Off_remove a i ns found = Off_remove a (i + 1) ns found"
        using True ne by (subst Off_remove.simps) simp
      also have "\<dots> = (take (i + 1) ns @ filter (\<lambda>n. Addr n \<noteq> a) (drop (i + 1) ns),
                       found \<or> a \<in> Addr ` set (drop (i + 1) ns))"
        using "1.IH"(2)[OF True ne "1.prems"] .
      finally show ?thesis
        using True ne d by (simp add: take_Suc_conv_app_nth)
    qed
  next
    case False
    then show ?thesis by (subst Off_remove.simps) simp
  qed
qed

lemma Off_remove_general:
  "Off_remove a i ns f = (ns', f') \<Longrightarrow>
     set ns' \<subseteq> set ns \<and> length ns' \<le> length ns
     \<and> (f' \<longleftrightarrow> f \<or> length ns' < length ns) \<and> (length ns' = length ns \<longrightarrow> ns' = ns)"
proof (induction a i ns f arbitrary: ns' f' rule: Off_remove.induct)
  case (1 a i ns found)
  show ?case
  proof (cases "i < length ns")
    case True
    show ?thesis
    proof (cases "a = Addr (ns ! i)")
      case eq: True
      let ?ns1 = "take i ns @ drop (i + 1) ns"
      have r: "Off_remove a (i + 1) ?ns1 True = (ns', f')"
        using "1.prems" True eq by (subst (asm) Off_remove.simps) simp
      have s: "set ?ns1 \<subseteq> set ns"
        by (auto dest: in_set_takeD in_set_dropD)
      have l: "length ?ns1 < length ns" using True by simp
      from "1.IH"(1)[OF True eq r] s l show ?thesis by auto
    next
      case ne: False
      have r: "Off_remove a (i + 1) ns found = (ns', f')"
        using "1.prems" True ne by (subst (asm) Off_remove.simps) simp
      from "1.IH"(2)[OF True ne r] show ?thesis .
    qed
  next
    case False
    then show ?thesis using "1.prems" by (subst (asm) Off_remove.simps) auto
  qed
qed

lemma length_filter_distinct:
  "distinct (map f xs) \<Longrightarrow> a \<in> f ` set xs \<Longrightarrow>
     Suc (length (filter (\<lambda>x. f x \<noteq> a) xs)) = length xs"
proof (induction xs)
  case Nil
  then show ?case by simp
next
  case (Cons x xs)
  show ?case
  proof (cases "f x = a")
    case True
    have "a \<notin> f ` set xs" using True Cons.prems(1) by simp
    then have "\<forall>y\<in>set xs. f y \<noteq> a" by blast
    then have "filter (\<lambda>x. f x \<noteq> a) xs = xs"
      by (simp add: filter_id_conv)
    then show ?thesis using True by simp
  next
    case False
    then have "a \<in> f ` set xs" using Cons.prems(2) by auto
    moreover have "distinct (map f xs)" using Cons.prems(1) by simp
    ultimately have "Suc (length (filter (\<lambda>x. f x \<noteq> a) xs)) = length xs"
      by (rule Cons.IH[rotated])
    then show ?thesis using False by simp
  qed
qed


lemma set_record_simps [simp]:
  "buckets (set_record k d a r) = buckets k"
  "count (set_record k d a r) = count k"
  "proxLimit (set_record k d a r) = proxLimit k"
  "proxSize (set_record k d a r) = proxSize k"
  "params (set_record k d a r) = params k"
  "addr (set_record k d a r) = addr k"
  "Nodes (db (set_record k d a r)) = Nodes d"
  "index (db (set_record k d a r)) = (index d)(a \<mapsto> r)"
  by (simp_all add: set_record_def)

lemma bucket_total_set_record [simp]: "bucket_total (set_record k d a r) = bucket_total k"
  by (simp add: bucket_total_def)

lemma resident_set_record [simp]: "resident (set_record k d a r) = resident k"
  by (simp add: resident_def)

lemma findOrCreate_props:
  "findOrCreate d i a url = Some (r, d') \<Longrightarrow>
     length (Nodes d') = length (Nodes d) \<and> dom (index d') = Set.insert a (dom (index d))"
  by (auto simp: findOrCreate_def Let_def split: option.splits if_splits)

lemma findOrCreate_total:
  "0 \<le> i \<Longrightarrow> i < int (length (Nodes d)) \<Longrightarrow> \<exists>r d'. findOrCreate d i a url = Some (r, d')"
  by (auto simp: findOrCreate_def Let_def split: option.splits)

text \<open>What an insertion does to the table.\<close>

lemma On_insert_cases:
  assumes "On_insert k i n = Some (k', e)"
  obtains (full) b where "bucket_at (buckets k) i = Some b" "size b \<le> int (length (nodes b))"
      "k' = k" "e = Some BucketFull"
  | (added) b pl ps where "bucket_at (buckets k) i = Some b" "int (length (nodes b)) < size b"
      "e = None"
      "setProxLimit i False
         (k\<lparr>buckets := (buckets k)[nat i := b\<lparr>nodes := nodes b @ [n]\<rparr>], count := count k + 1\<rparr>) = Some k'"
      "k' = k\<lparr>buckets := (buckets k)[nat i := b\<lparr>nodes := nodes b @ [n]\<rparr>], count := count k + 1,
              proxLimit := pl, proxSize := ps\<rparr>"
      "0 \<le> proxLimit k \<longrightarrow> 0 \<le> pl"
      "proxLimit k \<le> MaxProx (params k) \<longrightarrow> pl \<le> MaxProx (params k)"
proof -
  from assms obtain b where b: "bucket_at (buckets k) i = Some b"
    by (auto simp: On_insert_def split: option.splits)
  show thesis
  proof (cases "size b \<le> int (length (nodes b))")
    case True
    then have "k' = k" "e = Some BucketFull"
      using assms b by (auto simp: On_insert_def insert_def)
    then show ?thesis using full b True by blast
  next
    case False
    let ?k1 = "k\<lparr>buckets := (buckets k)[nat i := b\<lparr>nodes := nodes b @ [n]\<rparr>], count := count k + 1\<rparr>"
    have s: "setProxLimit i False ?k1 = Some k'" and e: "e = None"
      using assms b False by (auto simp: On_insert_def insert_def)
    from setProxLimit_frame[OF s] obtain pl ps where
      "k' = ?k1\<lparr>proxLimit := pl, proxSize := ps\<rparr>" "0 \<le> proxLimit ?k1 \<longrightarrow> 0 \<le> pl"
      "proxLimit ?k1 \<le> MaxProx (params ?k1) \<longrightarrow> pl \<le> MaxProx (params ?k1)"
      by blast
    then show ?thesis using added[OF b _ e s] False by auto
  qed
qed

text \<open>The table that \<open>On\<close> hands to the insertion, or returns on a callback error.\<close>

lemma On_cases:
  assumes "On n cb k = Some (k', e)"
  obtains (rejected) r d r2 msg where
      "findOrCreate (db k) (proximityBin k (Addr n)) (Addr n) (Url n) = Some (r, d)"
      "k' = set_record k d (Addr n) r2" "e = Some (CallbackError (Addr n) msg)"
  | (inserted) r d r2 where
      "findOrCreate (db k) (proximityBin k (Addr n)) (Addr n) (Url n) = Some (r, d)"
      "On_insert (set_record k d (Addr n) r2) (proximityBin k (Addr n)) n = Some (k', e)"
proof -
  from assms obtain r d where
    f: "findOrCreate (db k) (proximityBin k (Addr n)) (Addr n) (Url n) = Some (r, d)"
    by (auto simp: On_def Let_def split: option.splits)
  show thesis
  proof (cases cb)
    case None
    then show ?thesis using assms f inserted by (auto simp: On_def Let_def)
  next
    case (Some g)
    obtain r2 res where g: "g (r\<lparr>rec_node := Some n\<rparr>) n = (r2, res)" by fastforce
    show ?thesis
    proof (cases res)
      case None
      then show ?thesis using assms f Some g inserted by (auto simp: On_def Let_def)
    next
      case (Some msg)
      then show ?thesis using assms f \<open>cb = Some g\<close> g rejected by (auto simp: On_def Let_def)
    qed
  qed
qed

lemma Off_cases:
  assumes "Off n cb k = Some (k', e)"
  obtains (absent) b where "bucket_at (buckets k) (proximityBin k (Addr n)) = Some b"
      "Off_remove (Addr n) 0 (nodes b) False = (nodes b, False)" "k' = k" "e = None"
  | (removed) b ns pl ps r where "bucket_at (buckets k) (proximityBin k (Addr n)) = Some b"
      "Off_remove (Addr n) 0 (nodes b) False = (ns, True)"
      "k' = set_record
              (k\<lparr>buckets := (buckets k)[nat (proximityBin k (Addr n)) := b\<lparr>nodes := ns\<rparr>],
                 count := count k - 1, proxLimit := pl, proxSize := ps\<rparr>) (db k) (Addr n) r"
      "0 \<le> proxLimit k \<longrightarrow> 0 \<le> pl"
      "proxLimit k \<le> MaxProx (params k) \<longrightarrow> pl \<le> MaxProx (params k)"
      "setProxLimit (proximityBin k (Addr n)) True
         (k\<lparr>buckets := (buckets k)[nat (proximityBin k (Addr n)) := b\<lparr>nodes := ns\<rparr>],
            count := count k - 1\<rparr>)
       = Some (k\<lparr>buckets := (buckets k)[nat (proximityBin k (Addr n)) := b\<lparr>nodes := ns\<rparr>],
                 count := count k - 1, proxLimit := pl, proxSize := ps\<rparr>)"
proof -
  let ?i = "proximityBin k (Addr n)"
  from assms obtain b where b: "bucket_at (buckets k) ?i = Some b"
    by (auto simp: Off_def Let_def split: option.splits)
  obtain ns found where rm: "Off_remove (Addr n) 0 (nodes b) False = (ns, found)"
    by fastforce
  let ?k1 = "k\<lparr>buckets := (buckets k)[nat ?i := b\<lparr>nodes := ns\<rparr>]\<rparr>"
  show thesis
  proof (cases found)
    case False
    with Off_remove_general[OF rm] have "ns = nodes b" by auto
    moreover have "(buckets k)[nat ?i := b] = buckets k"
      using bucket_atD[OF b] by simp
    ultimately have "k' = k" "e = None"
      using assms b rm False by (auto simp: Off_def Let_def)
    then show ?thesis using absent[OF b] rm False \<open>ns = nodes b\<close> by simp
  next
    case True
    let ?k2 = "?k1\<lparr>count := count ?k1 - 1\<rparr>"
    from assms b rm True obtain k3 where
      s: "setProxLimit ?i True ?k2 = Some k3"
      by (auto simp: Off_def Let_def split: option.splits)
    then obtain r where k': "k' = set_record k3 (db k3) (Addr n) r"
      using assms b rm True
      by (auto simp: Off_def Let_def Off_record_def split: option.splits)
    from setProxLimit_frame[OF s] obtain pl ps where
      "k3 = ?k2\<lparr>proxLimit := pl, proxSize := ps\<rparr>" "0 \<le> proxLimit ?k2 \<longrightarrow> 0 \<le> pl"
      "proxLimit ?k2 \<le> MaxProx (params ?k2) \<longrightarrow> pl \<le> MaxProx (params ?k2)"
      by blast
    then show ?thesis using removed[OF b] rm True k' s by auto
  qed
qed

lemma bucket_total_update:
  assumes "bucket_at (buckets k) i = Some b"
  shows "sum_list (map (\<lambda>b. int (length (nodes b))) ((buckets k)[nat i := b'])) =
           bucket_total k - int (length (nodes b)) + int (length (nodes b'))"
  using bucket_atD[OF assms]
  by (simp add: bucket_total_def map_update sum_list_update_int)

lemma in_set_updateD: "x \<in> set (xs[i := y]) \<Longrightarrow> x = y \<or> x \<in> set xs"
  using set_update_subset_insert[of xs i y] by auto

lemma resident_iff: "a \<in> set (resident k) \<longleftrightarrow> (\<exists>b \<in> set (buckets k). a \<in> Addr ` set (nodes b))"
  by (auto simp: resident_def)

lemma On_counted:
  assumes "On n cb k = Some (k', e)" "counted k" "Addr n \<notin> set (resident k)"
  shows "counted k'"
  using assms(1)
proof (cases rule: On_cases)
  case (rejected r d r2 msg)
  then show ?thesis using assms(2) by (simp add: counted_def bucket_total_def)
next
  case (inserted r d r2)
  let ?k1 = "set_record k d (Addr n) r2"
  from inserted(2) show ?thesis
  proof (cases rule: On_insert_cases)
    case (full b)
    then show ?thesis using assms(2) by (simp add: counted_def bucket_total_def)
  next
    case (added b pl ps)
    have b: "bucket_at (buckets k) (proximityBin k (Addr n)) = Some b"
      using added(1) by simp
    have in_b: "b \<in> set (buckets k)" using bucket_atD[OF b] by auto
    have "count k' = bucket_total k'"
      using added(5) assms(2) bucket_total_update[OF b, of "b\<lparr>nodes := nodes b @ [n]\<rparr>"]
      by (simp add: counted_def bucket_total_def)
    moreover have "distinct (map Addr (nodes b @ [n]))"
      using assms(2,3) in_b by (auto simp: counted_def resident_iff)
    then have "\<forall>c \<in> set (buckets k'). distinct (map Addr (nodes c))"
      using added(5) assms(2) by (auto simp: counted_def dest!: in_set_updateD)
    ultimately show ?thesis by (simp add: counted_def)
  qed
qed

lemma Off_counted:
  assumes "Off n cb k = Some (k', e)" "counted k"
  shows "counted k'"
  using assms(1)
proof (cases rule: Off_cases)
  case (absent b)
  then show ?thesis using assms(2) by simp
next
  case (removed b ns pl ps r)
  have in_b: "b \<in> set (buckets k)" using bucket_atD[OF removed(1)] by auto
  then have d: "distinct (map Addr (nodes b))" using assms(2) by (simp add: counted_def)
  from Off_remove_distinct[OF d, of "Addr n" 0 False] removed(2)
  have ns: "ns = filter (\<lambda>m. Addr m \<noteq> Addr n) (nodes b)" and mem: "Addr n \<in> Addr ` set (nodes b)"
    by auto
  from length_filter_distinct[OF d mem] ns
  have len: "int (length ns) = int (length (nodes b)) - 1" by simp
  have "count k' = bucket_total k'"
    using removed(3) assms(2) bucket_total_update[OF removed(1), of "b\<lparr>nodes := ns\<rparr>"] len
    by (simp add: counted_def bucket_total_def)
  moreover have "distinct (map Addr ns)"
    using d ns by (simp add: distinct_map_filter)
  then have "\<forall>c \<in> set (buckets k'). distinct (map Addr (nodes c))"
    using removed(3) assms(2) by (auto simp: counted_def dest!: in_set_updateD)
  ultimately show ?thesis by (simp add: counted_def)
qed

lemma run_ops_counted:
  "counted k \<Longrightarrow> On_once ops k \<Longrightarrow> run_ops ops k = Some k' \<Longrightarrow> counted k'"
proof (induction ops arbitrary: k)
  case Nil
  then show ?case by simp
next
  case (Cons x xs)
  show ?case
  proof (cases x)
    case (OpOn n cb)
    with Cons.prems obtain k1 e where s: "On n cb k = Some (k1, e)" and r: "run_ops xs k1 = Some k'"
      by (auto split: option.splits)
    have "counted k1" using On_counted[OF s Cons.prems(1)] Cons.prems(2) OpOn by simp
    moreover have "On_once xs k1" using Cons.prems(2) OpOn s by simp
    ultimately show ?thesis using Cons.IH r by blast
  next
    case (OpOff n cb)
    with Cons.prems obtain k1 e where s: "Off n cb k = Some (k1, e)" and r: "run_ops xs k1 = Some k'"
      by (auto split: option.splits)
    have "counted k1" using Off_counted[OF s Cons.prems(1)] .
    moreover have "On_once xs k1" using Cons.prems(2) OpOff s by simp
    ultimately show ?thesis using Cons.IH r by blast
  qed
qed

lemma New_counted: "New a ps = Some k \<Longrightarrow> counted k"
  by (auto simp: New_def Let_def counted_def bucket_total_def sum_list_replicate split: if_splits)

lemma proximity_nonneg: "0 \<le> proximity a b"
  by (induction a b rule: proximity.induct) auto

lemma proximityBin_range:
  "0 \<le> MaxProx (params k) \<Longrightarrow>
     0 \<le> proximityBin k a \<and> proximityBin k a \<le> MaxProx (params k)"
  using proximity_nonneg[of "addr k" a] by (simp add: proximityBin_def Let_def)

lemma findOrCreate_index_mono:
  assumes "findOrCreate d i a url = Some (r, d')" "index d x \<noteq> None"
  shows "((index d')(a \<mapsto> r2)) x \<noteq> None"
proof -
  have "x \<in> dom (index d)" using assms(2) by auto
  then have "x \<in> dom (index d')" using findOrCreate_props[OF assms(1)] by simp
  then show ?thesis by auto
qed

lemma table_invI:
  assumes "table_inv k" "params k' = params k" "length (buckets k') = length (buckets k)"
    "length (Nodes (db k')) = length (Nodes (db k))"
    "0 \<le> proxLimit k'" "proxLimit k' \<le> MaxProx (params k)"
    "\<And>b. b \<in> set (buckets k') \<Longrightarrow> size b = BucketSize (params k)"
    "\<And>b n. b \<in> set (buckets k') \<Longrightarrow> n \<in> set (nodes b) \<Longrightarrow> index (db k') (Addr n) \<noteq> None"
    "bucket_total k' \<le> count k'"
  shows "table_inv k'"
  using assms unfolding table_inv_def by simp

lemma table_inv_size:
  "table_inv k \<Longrightarrow> b \<in> set (buckets k) \<Longrightarrow> size b = BucketSize (params k)"
  by (simp add: table_inv_def)

lemma table_inv_index:
  "table_inv k \<Longrightarrow> b \<in> set (buckets k) \<Longrightarrow> n \<in> set (nodes b) \<Longrightarrow>
     index (db k) (Addr n) \<noteq> None"
  by (simp add: table_inv_def)

lemma table_inv_bucket_at:
  assumes "table_inv k"
  shows "bucket_at (buckets k) (proximityBin k a) \<noteq> None"
  using assms proximityBin_range[of k a] by (simp add: table_inv_def bucket_at_def)

lemma On_table_inv:
  assumes "On n cb k = Some (k', e)" "table_inv k"
  shows "table_inv k'"
  using assms(1)
proof (cases rule: On_cases)
  case (rejected r d r2 msg)
  show ?thesis
  proof (rule table_invI[OF assms(2)])
    show "bucket_total k' \<le> count k'"
      using rejected assms(2) by (simp add: table_inv_def)
    show "index (db k') (Addr m) \<noteq> None" if "b \<in> set (buckets k')" "m \<in> set (nodes b)" for b m
      using that rejected findOrCreate_index_mono[OF rejected(1) table_inv_index[OF assms(2)]]
      by simp
  qed (use rejected assms(2) findOrCreate_props[OF rejected(1)] in \<open>simp_all add: table_inv_def\<close>)
next
  case (inserted r d r2)
  let ?a = "Addr n"
  let ?k1 = "set_record k d ?a r2"
  note foc = findOrCreate_props[OF inserted(1)]
  have idx: "index (db ?k1) (Addr m) \<noteq> None" if "b \<in> set (buckets k)" "m \<in> set (nodes b)" for b m
    using that findOrCreate_index_mono[OF inserted(1) table_inv_index[OF assms(2)]] by simp
  from inserted(2) show ?thesis
  proof (cases rule: On_insert_cases)
    case (full b)
    show ?thesis
    proof (rule table_invI[OF assms(2)])
      show "index (db k') (Addr m) \<noteq> None" if "b \<in> set (buckets k')" "m \<in> set (nodes b)" for b m
        using that idx full by simp
    qed (use full assms(2) foc in \<open>simp_all add: table_inv_def\<close>)
  next
    case (added b pl ps)
    have b: "bucket_at (buckets k) (proximityBin k ?a) = Some b"
      using added(1) by simp
    have in_b: "b \<in> set (buckets k)" using bucket_atD[OF b] by auto
    show ?thesis
    proof (rule table_invI[OF assms(2)])
      show "bucket_total k' \<le> count k'"
        using added(5) assms(2) bucket_total_update[OF b, of "b\<lparr>nodes := nodes b @ [n]\<rparr>"]
        by (simp add: table_inv_def bucket_total_def)
      show "size c = BucketSize (params k)" if "c \<in> set (buckets k')" for c
        using that added(5) table_inv_size[OF assms(2)] in_b by (auto dest!: in_set_updateD)
      show "index (db k') (Addr m) \<noteq> None" if "c \<in> set (buckets k')" "m \<in> set (nodes c)" for c m
      proof -
        from that(1) added(5) have "c = b\<lparr>nodes := nodes b @ [n]\<rparr> \<or> c \<in> set (buckets k)"
          by (auto dest!: in_set_updateD)
        then have "m = n \<or> (\<exists>c' \<in> set (buckets k). m \<in> set (nodes c'))"
          using that(2) in_b by auto
        moreover have "index (db ?k1) (Addr n) \<noteq> None" by simp
        ultimately have "index (db ?k1) (Addr m) \<noteq> None" using idx by blast
        moreover have "db k' = db ?k1" using added(5) by simp
        ultimately show ?thesis by simp
      qed
    qed (use added assms(2) foc in \<open>simp_all add: table_inv_def\<close>)
  qed
qed

lemma On_total:
  assumes "table_inv k"
  shows "\<exists>k' e. On n cb k = Some (k', e)"
proof -
  let ?i = "proximityBin k (Addr n)"
  have range: "0 \<le> ?i" "?i \<le> MaxProx (params k)"
    using proximityBin_range[of k "Addr n"] assms by (simp_all add: table_inv_def)
  have len: "int (length (buckets k)) = MaxProx (params k) + 1" "length (Nodes (db k)) = length (buckets k)"
    using assms by (simp_all add: table_inv_def)
  obtain r d where f: "findOrCreate (db k) ?i (Addr n) (Url n) = Some (r, d)"
    using findOrCreate_total[of ?i "db k"] range len by fastforce
  have ins: "\<exists>k' e. On_insert (set_record k d (Addr n) r2) ?i n = Some (k', e)" for r2
  proof -
    let ?k1 = "set_record k d (Addr n) r2"
    obtain b where b: "bucket_at (buckets ?k1) ?i = Some b"
      using table_inv_bucket_at[OF assms, of "Addr n"] by auto
    let ?k2 = "?k1\<lparr>buckets := (buckets ?k1)[nat ?i := b\<lparr>nodes := nodes b @ [n]\<rparr>], count := count ?k1 + 1\<rparr>"
    have "\<exists>k'. setProxLimit ?i False ?k2 = Some k'"
      using assms range len by (intro setProxLimit_total) (simp_all add: table_inv_def)
    then show ?thesis using b by (auto simp: On_insert_def insert_def)
  qed
  show ?thesis
  proof (cases cb)
    case None
    then show ?thesis using f ins by (simp add: On_def Let_def)
  next
    case (Some g)
    obtain r2 res where g: "g (r\<lparr>rec_node := Some n\<rparr>) n = (r2, res)" by fastforce
    then show ?thesis using f Some ins[of "r2\<lparr>connected := True\<rparr>"] by (cases res) (auto simp: On_def Let_def)
  qed
qed

lemma Off_table_inv:
  assumes "Off n cb k = Some (k', e)" "table_inv k"
  shows "table_inv k'"
  using assms(1)
proof (cases rule: Off_cases)
  case (absent b)
  then show ?thesis using assms(2) by simp
next
  case (removed b ns pl ps r)
  have in_b: "b \<in> set (buckets k)" using bucket_atD[OF removed(1)] by auto
  note g = Off_remove_general[OF removed(2)]
  show ?thesis
  proof (rule table_invI[OF assms(2)])
    show "bucket_total k' \<le> count k'"
      using removed(3) assms(2) bucket_total_update[OF removed(1), of "b\<lparr>nodes := ns\<rparr>"] g
      by (simp add: table_inv_def bucket_total_def)
    show "size c = BucketSize (params k)" if "c \<in> set (buckets k')" for c
      using that removed(3) table_inv_size[OF assms(2)] in_b by (auto dest!: in_set_updateD)
    show "index (db k') (Addr m) \<noteq> None" if "c \<in> set (buckets k')" "m \<in> set (nodes c)" for c m
    proof -
      from that(1) removed(3) have "c = b\<lparr>nodes := ns\<rparr> \<or> c \<in> set (buckets k)"
        by (auto dest!: in_set_updateD)
      then have "\<exists>c' \<in> set (buckets k). m \<in> set (nodes c')"
        using that(2) in_b g by auto
      then have "index (db k) (Addr m) \<noteq> None"
        using table_inv_index[OF assms(2)] by blast
      then show ?thesis using removed(3) by simp
    qed
  qed (use removed assms(2) in \<open>simp_all add: table_inv_def\<close>)
qed

lemma Off_total:
  assumes "table_inv k"
  shows "\<exists>k' e. Off n cb k = Some (k', e)"
proof -
  let ?i = "proximityBin k (Addr n)"
  have range: "0 \<le> ?i" "?i \<le> MaxProx (params k)"
    using proximityBin_range[of k "Addr n"] assms by (simp_all add: table_inv_def)
  have len: "int (length (buckets k)) = MaxProx (params k) + 1"
    using assms by (simp_all add: table_inv_def)
  obtain b where b: "bucket_at (buckets k) ?i = Some b"
    using table_inv_bucket_at[OF assms, of "Addr n"] by auto
  have in_b: "b \<in> set (buckets k)" using bucket_atD[OF b] by auto
  obtain ns found where rm: "Off_remove (Addr n) 0 (nodes b) False = (ns, found)"
    by fastforce
  show ?thesis
  proof (cases found)
    case False
    then show ?thesis using b rm by (simp add: Off_def Let_def)
  next
    case True
    let ?k2 = "k\<lparr>buckets := (buckets k)[nat ?i := b\<lparr>nodes := ns\<rparr>], count := count k - 1\<rparr>"
    obtain k3 where s: "setProxLimit ?i True ?k2 = Some k3"
      using setProxLimit_total[of ?k2 ?i True] assms range len by (auto simp: table_inv_def)
    from setProxLimit_frame[OF s] have db3: "db k3 = db k" by auto
    from Off_remove_absent[of "Addr n" 0 "nodes b" False] rm True
    have "Addr n \<in> Addr ` set (nodes b)" by auto
    then have "index (db k) (Addr n) \<noteq> None"
      using table_inv_index[OF assms in_b] by auto
    then have "\<exists>k'. Off_record k3 (Addr n) cb = Some k'"
      using db3 by (auto simp: Off_record_def)
    then show ?thesis using b rm True s by (auto simp: Off_def Let_def)
  qed
qed

lemma New_table_inv: "New a ps = Some k \<Longrightarrow> 0 \<le> MaxProx ps \<Longrightarrow> table_inv k"
  by (auto simp: New_def Let_def table_inv_def bucket_total_def newKadDb_def sum_list_replicate
      split: if_splits)

lemma run_ops_table_inv:
  "table_inv k \<Longrightarrow> \<exists>k'. run_ops ops k = Some k' \<and> table_inv k'"
proof (induction ops arbitrary: k)
  case Nil
  then show ?case by simp
next
  case (Cons x xs)
  have "\<exists>k1 e. apply_op x k = Some (k1, e) \<and> table_inv k1"
  proof (cases x)
    case (OpOn n cb)
    then show ?thesis using On_total[OF Cons.prems, of n cb] On_table_inv[OF _ Cons.prems] by auto
  next
    case (OpOff n cb)
    then show ?thesis using Off_total[OF Cons.prems, of n cb] Off_table_inv[OF _ Cons.prems] by auto
  qed
  then obtain k1 e where "apply_op x k = Some (k1, e)" "table_inv k1" by blast
  then show ?case using Cons.IH[of k1] by simp
qed


text \<open>
  C1 (as amended). On a freshly constructed table, after every sequence of On/Off
  operations in which On is never called for an address that a bucket already holds,
  count equals the sum of the lengths of all buckets; and such a sequence runs to its
  end without a panic when MaxProx is not negative.
\<close>

theorem count_is_bucket_total:
  assumes "New a ps = Some k0" "On_once ops k0"
  shows "(\<forall>k. run_ops ops k0 = Some k \<longrightarrow> count k = bucket_total k)
         \<and> (0 \<le> MaxProx ps \<longrightarrow> run_ops ops k0 \<noteq> None)"
proof -
  have "count k = bucket_total k" if "run_ops ops k0 = Some k" for k
    using run_ops_counted[OF New_counted[OF assms(1)] assms(2) that] by (simp add: counted_def)
  moreover have "run_ops ops k0 \<noteq> None" if "0 \<le> MaxProx ps"
    using run_ops_table_inv[OF New_table_inv[OF assms(1) that], of ops] by auto
  ultimately show ?thesis by blast
qed

theorem count_is_bucket_total_witness:
  "New [0] NewKadParams \<noteq> None
   \<and> On_once [OpOn (peer 0x80) None, OpOn (peer 0x81) None, OpOff (peer 0x80) None]
        (the (New [0] NewKadParams))
   \<and> map_option count
        (run_ops [OpOn (peer 0x80) None, OpOn (peer 0x81) None, OpOff (peer 0x80) None]
           (the (New [0] NewKadParams))) = Some 1
   \<and> map_option bucket_total
        (run_ops [OpOn (peer 0x80) None, OpOn (peer 0x81) None, OpOff (peer 0x80) None]
           (the (New [0] NewKadParams))) = Some 1"
proof -
  have n: "New [0] NewKadParams = Some (the (New [0] NewKadParams))"
    by (simp add: New_def NewKadParams_def Let_def)
  have o: "On_once [OpOn (peer 0x80) None, OpOn (peer 0x81) None, OpOff (peer 0x80) None]
        (the (New [0] NewKadParams))"
    by code_simp
  have c: "map_option count
        (run_ops [OpOn (peer 0x80) None, OpOn (peer 0x81) None, OpOff (peer 0x80) None]
           (the (New [0] NewKadParams))) = Some 1"
    by code_simp
  from count_is_bucket_total[OF n o] c show ?thesis
    using n o by (auto simp: map_option_case split: option.splits)
qed

theorem count_is_bucket_total_counterexample:
  "map_option count
     (run_ops [OpOn (peer 0x80) None, OpOn (peer 0x81) None, OpOn (peer 0x80) None,
               OpOff (peer 0x80) None] (the (New [0] NewKadParams))) = Some 2
   \<and> map_option bucket_total
     (run_ops [OpOn (peer 0x80) None, OpOn (peer 0x81) None, OpOn (peer 0x80) None,
               OpOff (peer 0x80) None] (the (New [0] NewKadParams))) = Some 1"
  by code_simp



lemma apply_op_length:
  assumes "apply_op x k = Some (k', e)"
  shows "length (buckets k') = length (buckets k)"
proof (cases x)
  case (OpOn n cb)
  then have on: "On n cb k = Some (k', e)" using assms by simp
  from on show ?thesis
  proof (cases rule: On_cases)
    case (rejected r d r2 msg)
    then show ?thesis by simp
  next
    case (inserted r d r2)
    from inserted(2) show ?thesis
      by (cases rule: On_insert_cases) simp_all
  qed
next
  case (OpOff n cb)
  then have "Off n cb k = Some (k', e)" using assms by simp
  then show ?thesis by (cases rule: Off_cases) simp_all
qed

lemma run_ops_length:
  "run_ops ops k = Some k' \<Longrightarrow> length (buckets k') = length (buckets k)"
proof (induction ops arbitrary: k)
  case Nil
  then show ?case by simp
next
  case (Cons x xs)
  then obtain k1 e where "apply_op x k = Some (k1, e)" "run_ops xs k1 = Some k'"
    by (auto split: option.splits)
  then show ?case using Cons.IH[of k1] apply_op_length[of x k k1 e] by simp
qed

lemma reachable_table_inv:
  assumes "New a ps = Some k0" "run_ops ops k0 = Some k" "0 \<le> MaxProx ps"
  shows "table_inv k"
  using run_ops_table_inv[OF New_table_inv[OF assms(1,3)], of ops] assms(2) by auto

lemma reachable_nonempty_table_inv:
  assumes "New a ps = Some k0" "run_ops ops k0 = Some k" "buckets k \<noteq> []"
  shows "table_inv k"
proof -
  have "length (buckets k0) = nat (MaxProx ps + 1)"
    using assms(1) by (auto simp: New_def Let_def split: if_splits)
  then have "0 \<le> MaxProx ps"
    using run_ops_length[OF assms(2)] assms(3) by (cases "0 \<le> MaxProx ps") auto
  then show ?thesis using reachable_table_inv[OF assms(1,2)] by simp
qed

text \<open>
  C2. After five peers are switched on (one in bin 0, three in bin 1, one in bin 2)
  the table has proxLimit 1 and proxSize 4, the number of peers in bins 1 and above.
  Switching the peer of bin 0 off then leaves proxSize 3 at proxLimit 0, while the
  buckets from bin 0 upward hold 4 peers.
\<close>

theorem proxSize_after_Off_below_proxLimit:
  "map_option (\<lambda>k. (proxLimit k, proxSize k, prox_total k))
     (run_ops [OpOn (peer 0x80) None, OpOn (peer 0x40) None, OpOn (peer 0x41) None,
               OpOn (peer 0x42) None, OpOn (peer 0x20) None]
        (the (New [0] NewKadParams))) = Some (1, 4, 4)
   \<and> map_option (\<lambda>k. (proxLimit k, proxSize k, prox_total k))
     (run_ops [OpOn (peer 0x80) None, OpOn (peer 0x40) None, OpOn (peer 0x41) None,
               OpOn (peer 0x42) None, OpOn (peer 0x20) None, OpOff (peer 0x80) None]
        (the (New [0] NewKadParams))) = Some (0, 3, 4)"
  by code_simp

text \<open>
  C5. In every table reached from a fresh one, when the bucket of a peer's proximity
  bin already holds BucketSize peers (or more), On(peer, nil) returns the bucket-full
  error and leaves every bucket and count as they were.
\<close>

theorem On_bucket_full:
  assumes "New a ps = Some k0" "run_ops ops k0 = Some k"
    "bucket_at (buckets k) (proximityBin k (Addr n)) = Some b"
    "BucketSize (params k) \<le> int (length (nodes b))"
  shows "\<exists>k'. On n None k = Some (k', Some BucketFull)
           \<and> buckets k' = buckets k \<and> count k' = count k"
proof -
  let ?i = "proximityBin k (Addr n)"
  from bucket_atD[OF assms(3)] have in_b: "b \<in> set (buckets k)" and i: "0 \<le> ?i" "nat ?i < length (buckets k)"
    by auto
  then have "buckets k \<noteq> []" by auto
  then have inv: "table_inv k"
    using reachable_nonempty_table_inv[OF assms(1,2)] by simp
  then have "length (Nodes (db k)) = length (buckets k)" by (simp add: table_inv_def)
  moreover have "?i < int (length (buckets k))" using i by linarith
  ultimately obtain r d where f: "findOrCreate (db k) ?i (Addr n) (Url n) = Some (r, d)"
    using findOrCreate_total[of ?i "db k" "Addr n" "Url n"] i(1) by auto
  have "size b \<le> int (length (nodes b))"
    using table_inv_size[OF inv in_b] assms(4) by simp
  then show ?thesis
    using f assms(3) by (simp add: On_def Let_def On_insert_def insert_def)
qed

theorem On_bucket_full_witness:
  "New [0] NewKadParams \<noteq> None
   \<and> run_ops [OpOn (peer 0x40) None, OpOn (peer 0x41) None, OpOn (peer 0x42) None]
        (the (New [0] NewKadParams)) \<noteq> None
   \<and> (\<exists>k'. On (peer 0x43) None
           (the (run_ops [OpOn (peer 0x40) None, OpOn (peer 0x41) None, OpOn (peer 0x42) None]
                  (the (New [0] NewKadParams))))
         = Some (k', Some BucketFull))"
proof -
  let ?ops = "[OpOn (peer 0x40) None, OpOn (peer 0x41) None, OpOn (peer 0x42) None]"
  let ?fresh = "the (New [0] NewKadParams)"
  let ?tbl = "the (run_ops ?ops ?fresh)"
  have n: "New [0] NewKadParams = Some ?fresh"
    by (simp add: New_def NewKadParams_def Let_def)
  have n': "New [0] NewKadParams \<noteq> None"
    by (simp add: New_def NewKadParams_def Let_def)
  have r': "run_ops ?ops ?fresh \<noteq> None"
    by code_simp
  then have r: "run_ops ?ops ?fresh = Some ?tbl" by simp
  have b: "bucket_at (buckets ?tbl) (proximityBin ?tbl (Addr (peer 0x43)))
             = Some \<lparr>size = 3, nodes = [peer 0x40, peer 0x41, peer 0x42]\<rparr>"
    by code_simp
  have s: "BucketSize (params ?tbl)
             \<le> int (length (nodes \<lparr>size = 3, nodes = [peer 0x40, peer 0x41, peer 0x42]\<rparr>))"
    by code_simp
  have "\<exists>k'. On (peer 0x43) None ?tbl = Some (k', Some BucketFull)"
    using On_bucket_full[OF n r b s] by blast
  then show ?thesis using n' r' by blast
qed

text \<open>
  C6 (as amended). In every table reached from a fresh one with MaxProx not negative,
  On first obtains the peer's record from the database and attaches the live peer to
  it; when the callback, called on that record and the peer, returns an error, On
  returns the callback's error and the table differs from the one before the call in
  the record database only: buckets, count, proxLimit and proxSize are as they were,
  while the database is the one findOrCreate left, with the record as the callback
  left it stored under the peer's address.
\<close>

theorem On_callback_error:
  assumes "New a ps = Some k0" "0 \<le> MaxProx ps" "run_ops ops k0 = Some k"
  shows "\<exists>r d. findOrCreate (db k) (proximityBin k (Addr n)) (Addr n) (Url n) = Some (r, d)
           \<and> (\<forall>r2 msg. cb (r\<lparr>rec_node := Some n\<rparr>) n = (r2, Some msg) \<longrightarrow>
                 On n (Some cb) k
                   = Some (k\<lparr>db := d\<lparr>index := (index d)(Addr n \<mapsto> r2)\<rparr>\<rparr>,
                           Some (CallbackError (Addr n) msg)))"
proof -
  let ?i = "proximityBin k (Addr n)"
  have inv: "table_inv k" using reachable_table_inv[OF assms(1,3,2)] .
  then have "0 \<le> ?i" "?i < int (length (Nodes (db k)))"
    using proximityBin_range[of k "Addr n"] by (auto simp: table_inv_def)
  then obtain r d where f: "findOrCreate (db k) ?i (Addr n) (Url n) = Some (r, d)"
    using findOrCreate_total[of ?i "db k" "Addr n" "Url n"] by auto
  have "On n (Some cb) k
          = Some (k\<lparr>db := d\<lparr>index := (index d)(Addr n \<mapsto> r2)\<rparr>\<rparr>,
                  Some (CallbackError (Addr n) msg))"
    if "cb (r\<lparr>rec_node := Some n\<rparr>) n = (r2, Some msg)" for r2 msg
    using f that by (simp add: On_def Let_def set_record_def)
  then show ?thesis using f by blast
qed

theorem On_callback_error_witness:
  "New [0] NewKadParams \<noteq> None \<and> 0 \<le> MaxProx NewKadParams
   \<and> run_ops [OpOn (peer 0x40) None] (the (New [0] NewKadParams)) \<noteq> None
   \<and> (\<exists>k'. On (peer 0x80) (Some reject)
           (the (run_ops [OpOn (peer 0x40) None] (the (New [0] NewKadParams))))
         = Some (k', Some (CallbackError [0x80] ''refused''))
        \<and> buckets k' = buckets (the (run_ops [OpOn (peer 0x40) None] (the (New [0] NewKadParams))))
        \<and> count k' = count (the (run_ops [OpOn (peer 0x40) None] (the (New [0] NewKadParams)))))"
proof -
  let ?ops = "[OpOn (peer 0x40) None]"
  let ?fresh = "the (New [0] NewKadParams)"
  let ?tbl = "the (run_ops ?ops ?fresh)"
  have n: "New [0] NewKadParams = Some ?fresh"
    by (simp add: New_def NewKadParams_def Let_def)
  have n': "New [0] NewKadParams \<noteq> None"
    by (simp add: New_def NewKadParams_def Let_def)
  have m: "0 \<le> MaxProx NewKadParams" by (simp add: NewKadParams_def)
  have r': "run_ops ?ops ?fresh \<noteq> None"
    by code_simp
  then have r: "run_ops ?ops ?fresh = Some ?tbl" by simp
  from On_callback_error[where cb = reject and n = "peer 0x80", OF n m r]
  obtain rc d where
    "\<forall>r2 msg. reject (rc\<lparr>rec_node := Some (peer 0x80)\<rparr>) (peer 0x80) = (r2, Some msg) \<longrightarrow>
       On (peer 0x80) (Some reject) ?tbl
         = Some (?tbl\<lparr>db := d\<lparr>index := (index d)(Addr (peer 0x80) \<mapsto> r2)\<rparr>\<rparr>,
                 Some (CallbackError (Addr (peer 0x80)) msg))"
    by blast
  moreover have "reject (rc\<lparr>rec_node := Some (peer 0x80)\<rparr>) (peer 0x80)
                   = (rc\<lparr>rec_node := Some (peer 0x80)\<rparr>, Some ''refused'')"
    by (simp add: reject_def)
  ultimately have "On (peer 0x80) (Some reject) ?tbl
         = Some (?tbl\<lparr>db := d\<lparr>index := (index d)(Addr (peer 0x80) \<mapsto> rc\<lparr>rec_node := Some (peer 0x80)\<rparr>)\<rparr>\<rparr>,
                 Some (CallbackError (Addr (peer 0x80)) ''refused''))"
    by blast
  moreover have "Addr (peer 0x80) = [0x80]" by (simp add: peer_def)
  ultimately have "\<exists>k'. On (peer 0x80) (Some reject) ?tbl = Some (k', Some (CallbackError [0x80] ''refused''))
        \<and> buckets k' = buckets ?tbl \<and> count k' = count ?tbl"
    by simp
  then show ?thesis using n' m r' by blast
qed

theorem On_callback_error_counterexample:
  "map_option (\<lambda>k. map_option rec_node (index (db k) [0x80]))
     (run_ops [OpOn (peer 0x80) None, OpOff (peer 0x80) None] (the (New [0] NewKadParams)))
     = Some (Some None)
   \<and> map_option (\<lambda>(k', e). (e, map_option rec_node (index (db k') [0x80])))
       (On (peer 0x80) (Some reject)
          (the (run_ops [OpOn (peer 0x80) None, OpOff (peer 0x80) None]
                  (the (New [0] NewKadParams)))))
     = Some (Some (CallbackError [0x80] ''refused''), Some (Some (peer 0x80)))"
  by code_simp

lemma ProxCmp_ge: "ProxCmp t x y \<ge> 0 \<longleftrightarrow> distance t y \<le> distance t x"
  by (auto simp: ProxCmp_def sgn_if)

lemma ProxCmp_le: "ProxCmp t x y \<le> 0 \<longleftrightarrow> distance t x \<le> distance t y"
  by (auto simp: ProxCmp_def sgn_if)

lemma Search_loop_correct:
  assumes mono: "\<And>a b. a \<le> b \<Longrightarrow> b < n \<Longrightarrow> f a \<Longrightarrow> f b"
  shows "i \<le> j \<Longrightarrow> j \<le> n \<Longrightarrow> (\<forall>a < i. \<not> f a) \<Longrightarrow> (\<forall>a. j \<le> a \<and> a < n \<longrightarrow> f a) \<Longrightarrow>
         Search_loop f i j \<le> n \<and> (\<forall>a < Search_loop f i j. \<not> f a)
         \<and> (\<forall>a. Search_loop f i j \<le> a \<and> a < n \<longrightarrow> f a)"
proof (induction "j - i" arbitrary: i j rule: less_induct)
  case less
  show ?case
  proof (cases "i < j")
    case True
    define h where "h = (i + j) div 2"
    have h: "i \<le> h" "h < j" using True by (simp_all add: h_def)
    have hn: "h < n" using h less.prems(2) by simp
    show ?thesis
    proof (cases "f h")
      case fh: True
      have hi: "\<forall>a. h \<le> a \<and> a < n \<longrightarrow> f a"
        using fh mono by blast
      have "h - i < j - i" using h by simp
      from less.hyps[OF this h(1) _ less.prems(3) hi] hn
      have "Search_loop f i h \<le> n \<and> (\<forall>a < Search_loop f i h. \<not> f a)
         \<and> (\<forall>a. Search_loop f i h \<le> a \<and> a < n \<longrightarrow> f a)"
        by simp
      moreover have "Search_loop f i j = Search_loop f i h"
        using True fh by (subst Search_loop.simps) (simp add: Let_def h_def)
      ultimately show ?thesis by simp
    next
      case nfh: False
      have lo: "\<forall>a < h + 1. \<not> f a"
      proof (intro allI impI)
        fix a assume "a < h + 1"
        then have "a \<le> h" by simp
        then show "\<not> f a" using nfh mono[of a h] hn by blast
      qed
      have "j - (h + 1) < j - i" using h by simp
      from less.hyps[OF this _ less.prems(2) lo less.prems(4)] h
      have "Search_loop f (h + 1) j \<le> n \<and> (\<forall>a < Search_loop f (h + 1) j. \<not> f a)
         \<and> (\<forall>a. Search_loop f (h + 1) j \<le> a \<and> a < n \<longrightarrow> f a)"
        by simp
      moreover have "Search_loop f i j = Search_loop f (h + 1) j"
        using True nfh by (subst Search_loop.simps) (simp add: Let_def h_def)
      ultimately show ?thesis by simp
    qed
  next
    case False
    then have "Search_loop f i j = i" by (subst Search_loop.simps) simp
    moreover have "i = j" using False less.prems(1) by simp
    ultimately show ?thesis using less.prems by auto
  qed
qed

lemma sorted_insert_at:
  fixes d :: "'a \<Rightarrow> nat"
  assumes "sorted (map d ns)" "ix \<le> length ns"
    "\<forall>a < ix. d (ns ! a) \<le> d n" "\<forall>a. ix \<le> a \<and> a < length ns \<longrightarrow> d n \<le> d (ns ! a)"
  shows "sorted (map d (take ix ns @ n # drop ix ns))"
proof -
  have 1: "sorted (map d (take ix ns))"
    using assms(1) by (simp add: sorted_wrt_take flip: take_map)
  have 2: "sorted (map d (drop ix ns))"
    using assms(1) by (simp add: sorted_wrt_drop flip: drop_map)
  have 3: "d x \<le> d n" if "x \<in> set (take ix ns)" for x
  proof -
    from that obtain a where "a < ix" "a < length ns" "x = ns ! a"
      by (auto simp: in_set_conv_nth)
    then show ?thesis using assms(3) by simp
  qed
  have 4: "d n \<le> d y" if "y \<in> set (drop ix ns)" for y
  proof -
    from that obtain a where "a < length ns - ix" "y = ns ! (ix + a)"
      by (auto simp: in_set_conv_nth)
    then show ?thesis using assms(4) by simp
  qed
  have 5: "d x \<le> d y" if "x \<in> set (take ix ns)" "y \<in> set (drop ix ns)" for x y
    using 3[OF that(1)] 4[OF that(2)] by simp
  show ?thesis
    using 1 2 3 4 5 by (auto simp: sorted_append)
qed

lemma push_nodes:
  "h_nodes (push h n mx) =
     (let ns = h_nodes h;
          ix = Search (length ns) (\<lambda>i. ProxCmp (target h) (Addr (ns ! i)) (Addr n) \<ge> 0)
      in take (if int (length ns) < mx then length ns + 1 else length ns)
           (take ix ns @ n # drop ix ns))" if "Search (length (h_nodes h)) (\<lambda>i. ProxCmp (target h) (Addr (h_nodes h ! i)) (Addr n) \<ge> 0) \<le> length (h_nodes h)"
proof -
  define ns where "ns = h_nodes h"
  define ix where "ix = Search (length ns) (\<lambda>i. ProxCmp (target h) (Addr (ns ! i)) (Addr n) \<ge> 0)"
  have ix: "ix \<le> length ns" using that by (simp add: ix_def ns_def)
  show ?thesis
  proof (cases "int (length ns) < mx")
    case True
    have "take (length ns - ix) (drop ix ns @ [n]) = drop ix ns"
      by simp
    then have "h_nodes (push h n mx) = take ix ns @ n # drop ix ns"
      using True ix by (simp add: push_def Let_def flip: ns_def ix_def)
    then show ?thesis using True ix by (simp add: Let_def flip: ns_def ix_def)
  next
    case False
    show ?thesis
    proof (cases "ix < length ns")
      case lt: True
      have "take (length ns) (take ix ns @ n # drop ix ns)
              = take ix ns @ n # take (length ns - ix - 1) (drop ix ns)"
        using lt by (simp add: min_def take_Cons')
      then show ?thesis using False lt by (simp add: push_def Let_def flip: ns_def ix_def)
    next
      case ge: False
      then have "ix = length ns" using ix by simp
      then show ?thesis using False by (simp add: push_def Let_def flip: ns_def ix_def)
    qed
  qed
qed

lemma push_props:
  assumes "sorted_to t (h_nodes h)" "target h = t"
  shows "sorted_to t (h_nodes (push h n mx)) \<and> target (push h n mx) = t
         \<and> length (h_nodes (push h n mx)) =
             (if int (length (h_nodes h)) < mx then length (h_nodes h) + 1 else length (h_nodes h))"
proof -
  define ns where "ns = h_nodes h"
  define d where "d = (\<lambda>x::node. distance t (Addr x))"
  define f where "f = (\<lambda>i. ProxCmp (target h) (Addr (ns ! i)) (Addr n) \<ge> 0)"
  define ix where "ix = Search (length ns) f"
  have f: "f i \<longleftrightarrow> d n \<le> d (ns ! i)" for i
    by (simp add: f_def d_def ProxCmp_ge assms(2))
  have srt: "sorted (map d ns)" using assms(1) by (simp add: sorted_to_def d_def ns_def)
  have mono: "f a \<Longrightarrow> f b" if "a \<le> b" "b < length ns" for a b
  proof -
    have "d (ns ! a) \<le> d (ns ! b)"
      using sorted_nth_mono[OF srt, of a b] that by simp
    then show "f a \<Longrightarrow> f b" by (simp add: f)
  qed
  have "Search_loop f 0 (length ns) \<le> length ns \<and> (\<forall>a < Search_loop f 0 (length ns). \<not> f a)
         \<and> (\<forall>a. Search_loop f 0 (length ns) \<le> a \<and> a < length ns \<longrightarrow> f a)"
    by (rule Search_loop_correct[OF mono]) auto
  then have ix: "ix \<le> length ns" "\<forall>a < ix. d (ns ! a) \<le> d n"
    "\<forall>a. ix \<le> a \<and> a < length ns \<longrightarrow> d n \<le> d (ns ! a)"
    by (auto simp: ix_def Search_def f)
  have ins: "sorted (map d (take ix ns @ n # drop ix ns))"
    by (rule sorted_insert_at[OF srt ix])
  have nodes: "h_nodes (push h n mx) =
      take (if int (length ns) < mx then length ns + 1 else length ns) (take ix ns @ n # drop ix ns)"
    using push_nodes[of h n mx] ix(1) by (simp add: Let_def ix_def f_def ns_def)
  have "sorted (map d (h_nodes (push h n mx)))"
    unfolding nodes using ins by (simp add: sorted_wrt_take flip: take_map del: take_append)
  moreover have "length (h_nodes (push h n mx)) = (if int (length ns) < mx then length ns + 1 else length ns)"
    unfolding nodes using ix(1) by simp
  moreover have "target (push h n mx) = t"
    using assms(2) by (simp add: push_def Let_def)
  ultimately show ?thesis by (simp add: sorted_to_def d_def ns_def)
qed

lemma foldl_push_props:
  assumes "sorted_to t (h_nodes r)" "target r = t" "int (length (h_nodes r)) \<le> limit"
  shows "sorted_to t (h_nodes (foldl (\<lambda>h x. push h x limit) r xs))
         \<and> target (foldl (\<lambda>h x. push h x limit) r xs) = t
         \<and> int (length (h_nodes (foldl (\<lambda>h x. push h x limit) r xs)))
             = min (int (length (h_nodes r)) + int (length xs)) limit"
  using assms
proof (induction xs arbitrary: r)
  case Nil
  then show ?case by simp
next
  case (Cons x xs)
  note p = push_props[OF Cons.prems(1,2), of x limit]
  have "int (length (h_nodes (push r x limit))) \<le> limit"
    using p Cons.prems(3) by (auto split: if_splits)
  from Cons.IH[OF _ _ this] p
  have "sorted_to t (h_nodes (foldl (\<lambda>h x. push h x limit) (push r x limit) xs))
         \<and> target (foldl (\<lambda>h x. push h x limit) (push r x limit) xs) = t
         \<and> int (length (h_nodes (foldl (\<lambda>h x. push h x limit) (push r x limit) xs)))
             = min (int (length (h_nodes (push r x limit))) + int (length xs)) limit"
    by blast
  moreover have "min (int (length (h_nodes (push r x limit))) + int (length xs)) limit
       = min (int (length (h_nodes r)) + int (length (x # xs))) limit"
    using p Cons.prems(3) by (auto split: if_splits)
  ultimately show ?case by simp
qed

lemma peers_from_step:
  "0 \<le> j \<Longrightarrow> j < int (length (buckets k)) \<Longrightarrow>
     peers_from k j = int (length (nodes (buckets k ! nat j))) + peers_from k (j + 1)"
  by (simp add: peers_from_def nat_add_distrib flip: Cons_nth_drop_Suc)

lemma peers_from_end: "int (length (buckets k)) \<le> j \<Longrightarrow> peers_from k j = 0"
  by (simp add: peers_from_def)

lemma peers_from_0: "peers_from k 0 = bucket_total k"
  by (simp add: peers_from_def bucket_total_def)

lemma peers_from_proxLimit: "peers_from k (proxLimit k) = prox_total k"
  by (simp add: peers_from_def prox_total_def)

lemma peers_from_nonneg: "0 \<le> peers_from k j"
  by (auto simp: peers_from_def intro!: sum_list_nonneg)

lemma peers_from_le_total: "peers_from k j \<le> bucket_total k"
proof -
  let ?f = "\<lambda>b. int (length (nodes b))"
  have "sum_list (map ?f (take (nat j) (buckets k) @ drop (nat j) (buckets k)))
        = sum_list (map ?f (take (nat j) (buckets k))) + peers_from k j"
    unfolding map_append sum_list_append by (simp add: peers_from_def)
  moreover have "0 \<le> sum_list (map ?f (take (nat j) (buckets k)))"
    by (auto intro!: sum_list_nonneg)
  ultimately show ?thesis by (simp add: bucket_total_def)
qed

lemma result_inv_scan:
  assumes "result_inv t limit r n"
  shows "result_inv t limit (foldl (\<lambda>h x. push h x limit) r xs) (n + int (length xs))"
proof -
  have "int (length (h_nodes r)) \<le> limit" using assms by (simp add: result_inv_def)
  from foldl_push_props[OF _ _ this, of t xs] assms
  show ?thesis by (auto simp: result_inv_def)
qed

lemma nodes_from_step:
  "0 \<le> j \<Longrightarrow> j < int (length (buckets k)) \<Longrightarrow>
     nodes_from k j = nodes (buckets k ! nat j) @ nodes_from k (j + 1)"
  by (simp add: nodes_from_def nat_add_distrib flip: Cons_nth_drop_Suc)

lemma nodes_from_subset: "mset (nodes_from k j) \<subseteq># mset (nodes_from k 0)"
proof -
  have "nodes_from k 0 = concat (map nodes (take (nat j) (buckets k))) @ nodes_from k j"
    unfolding nodes_from_def by (simp flip: concat_append map_append)
  then show ?thesis by simp
qed

lemma Search_loop_bounds:
  "i \<le> j \<Longrightarrow> i \<le> Search_loop f i j \<and> Search_loop f i j \<le> j"
proof (induction "j - i" arbitrary: i j rule: less_induct)
  case less
  show ?case
  proof (cases "i < j")
    case True
    define h where "h = (i + j) div 2"
    have h: "i \<le> h" "h < j" using True by (simp_all add: h_def)
    show ?thesis
    proof (cases "f h")
      case fh: True
      have "h - i < j - i" using h by simp
      from less.hyps[OF this h(1)] h
      have "i \<le> Search_loop f i h \<and> Search_loop f i h \<le> j" by simp
      moreover have "Search_loop f i j = Search_loop f i h"
        using True fh by (subst Search_loop.simps) (simp add: Let_def h_def)
      ultimately show ?thesis by simp
    next
      case nfh: False
      have "j - (h + 1) < j - i" using h by simp
      from less.hyps[OF this] h
      have "i \<le> Search_loop f (h + 1) j \<and> Search_loop f (h + 1) j \<le> j" by simp
      moreover have "Search_loop f i j = Search_loop f (h + 1) j"
        using True nfh by (subst Search_loop.simps) (simp add: Let_def h_def)
      ultimately show ?thesis by simp
    qed
  next
    case False
    then have "Search_loop f i j = i" by (subst Search_loop.simps) simp
    then show ?thesis using less.prems by simp
  qed
qed

lemma push_mset: "mset (h_nodes (push h n mx)) \<subseteq># mset (h_nodes h) + {#n#}"
proof -
  define ns where "ns = h_nodes h"
  define ix where "ix = Search (length ns) (\<lambda>i. ProxCmp (target h) (Addr (ns ! i)) (Addr n) \<ge> 0)"
  define m where "m = (if int (length ns) < mx then length ns + 1 else length ns)"
  have ix: "ix \<le> length ns"
    using Search_loop_bounds[of 0 "length ns"] by (simp add: ix_def Search_def)
  have nodes: "h_nodes (push h n mx) = take m (take ix ns @ n # drop ix ns)"
    using push_nodes[of h n mx] ix by (simp add: Let_def ix_def ns_def m_def)
  have "mset (take m (take ix ns @ n # drop ix ns)) \<subseteq># mset (take ix ns @ n # drop ix ns)"
    by (metis append_take_drop_id mset.simps(2) mset_append mset_subset_eq_add_left)
  moreover have "mset (take ix ns @ n # drop ix ns) = mset ns + {#n#}"
    by (metis append_take_drop_id mset.simps(2) mset_append add_mset_add_single union_mset_add_mset_right)
  ultimately show ?thesis using nodes by (simp add: ns_def)
qed

lemma foldl_push_mset:
  "mset (h_nodes (foldl (\<lambda>h x. push h x limit) r xs)) \<subseteq># mset (h_nodes r) + mset xs"
proof (induction xs arbitrary: r)
  case Nil
  then show ?case by simp
next
  case (Cons x xs)
  have "mset (h_nodes (foldl (\<lambda>h x. push h x limit) (push r x limit) xs))
          \<subseteq># mset (h_nodes (push r x limit)) + mset xs"
    by (rule Cons.IH)
  also have "\<dots> \<subseteq># (mset (h_nodes r) + {#x#}) + mset xs"
    using push_mset[of r x limit] by (simp only: subset_mset.add_right_mono)
  finally show ?case by (simp add: ac_simps)
qed

lemma scan_within:
  assumes "0 \<le> start" "start < int (length (buckets k))"
    "mset (h_nodes r) \<subseteq># mset (nodes_from k (start + 1))"
  shows "mset (h_nodes (foldl (\<lambda>h x. push h x limit) r (nodes (buckets k ! nat start))))
           \<subseteq># mset (nodes_from k start)"
proof -
  let ?b = "nodes (buckets k ! nat start)"
  have "mset (h_nodes (foldl (\<lambda>h x. push h x limit) r ?b)) \<subseteq># mset (h_nodes r) + mset ?b"
    by (rule foldl_push_mset)
  also have "\<dots> \<subseteq># mset (nodes_from k (start + 1)) + mset ?b"
    using assms(3) by (simp only: subset_mset.add_right_mono)
  finally show ?thesis using nodes_from_step[OF assms(1,2)] by (simp add: ac_simps)
qed

lemma FindClosest_loop_down:
  assumes len: "int (length (buckets k)) = MaxProx (params k) + 1"
    and mx: "0 \<le> mx" and idx: "0 \<le> idx"
  shows "0 \<le> start \<Longrightarrow> start \<le> MaxProx (params k) \<Longrightarrow> n = peers_from k (start + 1) \<Longrightarrow>
     result_inv t limit r n \<Longrightarrow>
     \<exists>r' s. FindClosest_loop k mx limit idx start True n r = Some r'
        \<and> result_inv t limit r' (peers_from k s) \<and> 0 \<le> s \<and> s \<le> idx \<and> s \<le> start
        \<and> brk k mx limit s \<and> (\<forall>s'. s < s' \<and> s' \<le> idx \<and> s' \<le> start \<longrightarrow> \<not> brk k mx limit s')
        \<and> (mset (h_nodes r) \<subseteq># mset (nodes_from k (start + 1))
             \<longrightarrow> mset (h_nodes r') \<subseteq># mset (nodes_from k s))"
proof (induction "nat start" arbitrary: start n r rule: less_induct)
  case less
  let ?b = "buckets k ! nat start"
  let ?r1 = "foldl (\<lambda>h x. push h x limit) r (nodes ?b)"
  let ?n1 = "n + int (length (nodes ?b))"
  have b: "bucket_at (buckets k) start = Some ?b"
    using less.prems(1,2) len by (simp add: bucket_at_def)
  have n1: "?n1 = peers_from k start"
    using peers_from_step[of start k] less.prems(1,2,3) len by simp
  have r1: "result_inv t limit ?r1 (peers_from k start)"
    using result_inv_scan[OF less.prems(4), of "nodes ?b"] n1 by simp
  have w1: "mset (h_nodes r) \<subseteq># mset (nodes_from k (start + 1))
             \<longrightarrow> mset (h_nodes ?r1) \<subseteq># mset (nodes_from k start)"
    using scan_within[of start k r limit] less.prems(1,2) len by simp
  let ?C = "(mx = 0 \<and> start \<le> idx \<and> (?n1 > 0 \<or> start = 0))
            \<or> (mx > 0 \<and> True \<and> start \<le> idx \<and> (?n1 \<ge> limit \<or> ?n1 = count k \<or> start = 0))"
  have C: "?C \<longleftrightarrow> start \<le> idx \<and> brk k mx limit start"
    unfolding n1 brk_def by auto
  show ?case
  proof (cases ?C)
    case True
    then have "FindClosest_loop k mx limit idx start True n r = Some ?r1"
      using b by (subst FindClosest_loop.simps) (simp add: Let_def)
    then show ?thesis
      using r1 True C less.prems(1) w1 by (intro exI[of _ ?r1] exI[of _ start]) auto
  next
    case False
    have "start \<noteq> 0"
    proof
      assume "start = 0"
      then have "start \<le> idx \<and> brk k mx limit start"
        using idx mx by (auto simp: brk_def)
      then show False using False C by blast
    qed
    then have pos: "0 \<le> start - 1" using less.prems(1) by simp
    have step: "FindClosest_loop k mx limit idx start True n r
                  = FindClosest_loop k mx limit idx (start - 1) True ?n1 ?r1"
      by (subst FindClosest_loop.simps) (simp only: b option.simps Let_def if_not_P[OF False] if_True)
    have "nat (start - 1) < nat start" using less.prems(1) \<open>start \<noteq> 0\<close> by simp
    from less.hyps[OF this pos _ _ r1[folded n1]] less.prems(2) n1
    obtain r' s where rs: "FindClosest_loop k mx limit idx (start - 1) True ?n1 ?r1 = Some r'"
      "result_inv t limit r' (peers_from k s)" "0 \<le> s" "s \<le> idx" "s \<le> start - 1"
      "brk k mx limit s" "\<forall>s'. s < s' \<and> s' \<le> idx \<and> s' \<le> start - 1 \<longrightarrow> \<not> brk k mx limit s'"
      "mset (h_nodes ?r1) \<subseteq># mset (nodes_from k (start - 1 + 1))
         \<longrightarrow> mset (h_nodes r') \<subseteq># mset (nodes_from k s)"
      by auto
    have "\<not> brk k mx limit s'" if "s < s'" "s' \<le> idx" "s' \<le> start" for s'
    proof (cases "s' = start")
      case True
      then show ?thesis using False C that by blast
    next
      case ne: False
      then show ?thesis using rs(7) that by simp
    qed
    moreover have "mset (h_nodes r) \<subseteq># mset (nodes_from k (start + 1))
             \<longrightarrow> mset (h_nodes r') \<subseteq># mset (nodes_from k s)"
      using w1 rs(8) by simp
    ultimately show ?thesis
      using rs(1-6) step by (intro exI[of _ r'] exI[of _ s]) auto
  qed
qed

lemma FindClosest_loop_up:
  assumes len: "int (length (buckets k)) = MaxProx (params k) + 1"
    and mx: "0 < mx" and idx: "0 \<le> idx"
  shows "idx \<le> start \<Longrightarrow> start \<le> MaxProx (params k) \<Longrightarrow>
     n = peers_from k idx - peers_from k start \<Longrightarrow> result_inv t limit r n \<Longrightarrow>
     \<exists>r' s. FindClosest_loop k mx limit idx start False n r = Some r'
        \<and> result_inv t limit r' (peers_from k s) \<and> 0 \<le> s \<and> brk k mx limit s"
proof (induction "nat (MaxProx (params k) - start)" arbitrary: start n r rule: less_induct)
  case less
  let ?b = "buckets k ! nat start"
  let ?r1 = "foldl (\<lambda>h x. push h x limit) r (nodes ?b)"
  let ?n1 = "n + int (length (nodes ?b))"
  have start: "0 \<le> start" using idx less.prems(1) by simp
  have b: "bucket_at (buckets k) start = Some ?b"
    using start less.prems(2) len by (simp add: bucket_at_def)
  have n1: "?n1 = peers_from k idx - peers_from k (start + 1)"
    using peers_from_step[of start k] start less.prems(2,3) len by simp
  have r1: "result_inv t limit ?r1 ?n1"
    using result_inv_scan[OF less.prems(4), of "nodes ?b"] .
  let ?C = "(mx = 0 \<and> start \<le> idx \<and> (?n1 > 0 \<or> start = 0))
            \<or> (mx > 0 \<and> False \<and> start \<le> idx \<and> (?n1 \<ge> limit \<or> ?n1 = count k \<or> start = 0))"
  have C: "\<not> ?C" using mx by simp
  have nd: "\<not> False" by simp
  show ?case
  proof (cases "start = MaxProx (params k)")
    case True
    have n1': "?n1 = peers_from k idx"
      using n1 peers_from_end[of k "start + 1"] True len by simp
    show ?thesis
    proof (cases "idx = 0")
      case z: True
      have "FindClosest_loop k mx limit idx start False n r = Some ?r1"
        by (subst FindClosest_loop.simps)
           (simp only: b option.simps Let_def if_not_P[OF C] if_not_P[OF nd] if_P[OF True] if_P[OF z])
      moreover have "result_inv t limit ?r1 (peers_from k 0)"
        using r1 n1' z by simp
      moreover have "brk k mx limit 0" using mx by (simp add: brk_def)
      ultimately show ?thesis by (intro exI[of _ ?r1] exI[of _ 0]) simp
    next
      case nz: False
      have step: "FindClosest_loop k mx limit idx start False n r
                    = FindClosest_loop k mx limit idx (idx - 1) True ?n1 ?r1"
        by (subst FindClosest_loop.simps)
           (simp only: b option.simps Let_def if_not_P[OF C] if_not_P[OF nd] if_P[OF True] if_not_P[OF nz])
      have "0 \<le> idx - 1" "idx - 1 \<le> MaxProx (params k)" "?n1 = peers_from k (idx - 1 + 1)"
        using nz idx less.prems(1,2) n1' by simp_all
      from FindClosest_loop_down[OF len _ idx this(1,2,3) r1, of mx] mx step
      show ?thesis by force
    qed
  next
    case False
    have step: "FindClosest_loop k mx limit idx start False n r
                  = FindClosest_loop k mx limit idx (start + 1) False ?n1 ?r1"
      by (subst FindClosest_loop.simps)
         (simp only: b option.simps Let_def if_not_P[OF C] if_not_P[OF nd] if_not_P[OF False])
    have "nat (MaxProx (params k) - (start + 1)) < nat (MaxProx (params k) - start)"
      using False less.prems(2) by simp
    from less.hyps[OF this _ _ n1 r1] less.prems(1,2) False step
    show ?thesis by simp
  qed
qed

lemma sorted_to_ProxCmp:
  "sorted_to t ns \<longleftrightarrow> sorted_wrt (\<lambda>x y. ProxCmp t (Addr x) (Addr y) \<le> 0) ns"
  by (simp add: sorted_to_def sorted_map ProxCmp_le)

lemma brk_length:
  assumes "brk k mx mx s" "0 < mx" "bucket_total k \<le> count k"
  shows "min (peers_from k s) mx = min mx (bucket_total k)"
  using assms peers_from_le_total[of k s] peers_from_0[of k]
  by (auto simp: brk_def min_def)

lemma FindClosest_positive:
  assumes inv: "table_inv k" and mx: "0 < mx"
  shows "\<exists>r. FindClosest k t mx = Some r
           \<and> sorted_wrt (\<lambda>x y. ProxCmp t (Addr x) (Addr y) \<le> 0) r
           \<and> int (length r) = min mx (bucket_total k)"
proof -
  let ?i = "proximityBin k t"
  let ?r0 = "\<lparr>h_nodes = [], target = t\<rparr>"
  have len: "int (length (buckets k)) = MaxProx (params k) + 1"
    and pl: "0 \<le> proxLimit k" and mp: "0 \<le> MaxProx (params k)"
    and cnt: "bucket_total k \<le> count k"
    using inv by (simp_all add: table_inv_def)
  have i: "0 \<le> ?i" "?i \<le> MaxProx (params k)"
    using proximityBin_range[OF mp, of t] by simp_all
  have r0: "result_inv t mx ?r0 0"
    using mx by (simp add: result_inv_def sorted_to_def)
  have "\<exists>r' s. (if ?i \<ge> proxLimit k
            then FindClosest_loop k mx mx (proxLimit k) (MaxProx (params k)) True 0 ?r0
            else FindClosest_loop k mx mx ?i ?i False 0 ?r0) = Some r'
          \<and> result_inv t mx r' (peers_from k s) \<and> brk k mx mx s"
  proof (cases "?i \<ge> proxLimit k")
    case True
    have "0 = peers_from k (MaxProx (params k) + 1)"
      using peers_from_end[of k "MaxProx (params k) + 1"] len by simp
    from FindClosest_loop_down[OF len _ pl mp _ this r0, of mx] mx True
    show ?thesis by force
  next
    case False
    have "0 = peers_from k ?i - peers_from k ?i" by simp
    from FindClosest_loop_up[OF len mx i(1) _ i(2) this r0] False
    show ?thesis by force
  qed
  then obtain r' s where r': "(if ?i \<ge> proxLimit k
            then FindClosest_loop k mx mx (proxLimit k) (MaxProx (params k)) True 0 ?r0
            else FindClosest_loop k mx mx ?i ?i False 0 ?r0) = Some r'"
     "result_inv t mx r' (peers_from k s)" "brk k mx mx s"
    by blast
  have "FindClosest k t mx = Some (h_nodes r')"
    using r'(1) mx by (simp add: FindClosest_def Let_def)
  moreover have "sorted_wrt (\<lambda>x y. ProxCmp t (Addr x) (Addr y) \<le> 0) (h_nodes r')"
    using r'(2) by (simp add: result_inv_def sorted_to_ProxCmp)
  moreover have "int (length (h_nodes r')) = min mx (bucket_total k)"
    using r'(2) brk_length[OF r'(3) mx cnt] by (simp add: result_inv_def)
  ultimately show ?thesis by blast
qed

lemma expand_exit:
  "setProxLimit_expand r k = Some k' \<Longrightarrow> r < proxLimit k' \<Longrightarrow> proxLimit k' \<le> 0"
proof (induction r k rule: setProxLimit_expand.induct)
  case (1 r k)
  show ?case
  proof (cases "(proxSize k < ProxBinSize (params k) \<or> r < proxLimit k) \<and> proxLimit k > 0")
    case True
    then obtain b where b: "bucket_at (buckets k) (proxLimit k - 1) = Some b"
      using "1.prems" by (subst (asm) setProxLimit_expand.simps) (auto split: option.splits)
    let ?k1 = "k\<lparr>proxLimit := proxLimit k - 1, proxSize := proxSize k + int (length (nodes b))\<rparr>"
    have "setProxLimit_expand r ?k1 = Some k'"
      using "1.prems" True b by (subst (asm) setProxLimit_expand.simps) simp
    from "1.IH"[OF True b this "1.prems"(2)] show ?thesis .
  next
    case False
    then have "k' = k" using "1.prems" by (subst (asm) setProxLimit_expand.simps) auto
    then show ?thesis using False "1.prems"(2) by auto
  qed
qed

lemma contract_below:
  "setProxLimit_contract k = Some k' \<Longrightarrow> below_nonempty k \<Longrightarrow> below_nonempty k'"
proof (induction k rule: setProxLimit_contract.induct)
  case (1 k)
  show ?case
  proof (cases "proxLimit k < MaxProx (params k)")
    case True
    then obtain b where b: "bucket_at (buckets k) (proxLimit k) = Some b"
      using "1.prems" by (subst (asm) setProxLimit_contract.simps) (auto split: option.splits)
    show ?thesis
    proof (cases "length (nodes b) > 0 \<and> proxSize k - int (length (nodes b)) \<ge> ProxBinSize (params k)")
      case c: True
      let ?k1 = "k\<lparr>proxSize := proxSize k - int (length (nodes b)), proxLimit := proxLimit k + 1\<rparr>"
      have "setProxLimit_contract ?k1 = Some k'"
        using "1.prems" True b c by (subst (asm) setProxLimit_contract.simps) simp
      moreover have "below_nonempty ?k1"
        unfolding below_nonempty_def
      proof (intro allI impI)
        fix j assume j: "0 \<le> j \<and> j < proxLimit ?k1"
        show "nodes (buckets ?k1 ! nat j) \<noteq> []"
        proof (cases "j = proxLimit k")
          case True
          then show ?thesis using bucket_atD[OF b] c by auto
        next
          case False
          then show ?thesis using j "1.prems"(2) by (simp add: below_nonempty_def)
        qed
      qed
      ultimately show ?thesis using "1.IH"[OF True b c] by blast
    next
      case c: False
      then have "k' = k" using "1.prems" True b by (subst (asm) setProxLimit_contract.simps) auto
      then show ?thesis using "1.prems"(2) by simp
    qed
  next
    case False
    then have "k' = k" using "1.prems" by (subst (asm) setProxLimit_contract.simps) auto
    then show ?thesis using "1.prems"(2) by simp
  qed
qed

lemma setProxLimit_below:
  assumes s: "setProxLimit r off k = Some k'" and r: "0 \<le> r"
    and others: "\<forall>j. 0 \<le> j \<and> j < proxLimit k \<and> j \<noteq> r \<longrightarrow> nodes (buckets k ! nat j) \<noteq> []"
    and added: "\<not> off \<Longrightarrow> nodes (buckets k ! nat r) \<noteq> []"
  shows "below_nonempty k'"
proof -
  have adj: "below_nonempty k'" if a: "setProxLimit_adjust r off k = Some k'"
  proof (cases off)
    case True
    then have e: "setProxLimit_expand r (k\<lparr>proxSize := proxSize k - 1\<rparr>) = Some k'"
      using a by (simp add: setProxLimit_adjust_def)
    from expand_frame[OF e] obtain pl ps where
      k': "k' = k\<lparr>proxSize := proxSize k - 1\<rparr>\<lparr>proxLimit := pl, proxSize := ps\<rparr>"
      and pl: "pl \<le> proxLimit k" by auto
    have ex: "r < pl \<Longrightarrow> pl \<le> 0" using expand_exit[OF e] k' by simp
    show ?thesis
      unfolding below_nonempty_def
    proof (intro allI impI)
      fix j assume j: "0 \<le> j \<and> j < proxLimit k'"
      then have "j < pl" using k' by simp
      then have "j \<noteq> r" using ex j by auto
      then show "nodes (buckets k' ! nat j) \<noteq> []"
        using others j pl k' \<open>j < pl\<close> by simp
    qed
  next
    case False
    then have c: "setProxLimit_contract (k\<lparr>proxSize := proxSize k + 1\<rparr>) = Some k'"
      using a by (simp add: setProxLimit_adjust_def)
    have "below_nonempty (k\<lparr>proxSize := proxSize k + 1\<rparr>)"
      unfolding below_nonempty_def using others added[OF False] by auto
    then show ?thesis using contract_below[OF c] by simp
  qed
  show ?thesis
  proof (cases "r < proxLimit k")
    case True
    then obtain b where b: "bucket_at (buckets k) r = Some b"
      using s by (auto simp: setProxLimit_def split: option.splits)
    show ?thesis
    proof (cases "length (nodes b) > 0")
      case ne: True
      then have "k' = k" using s True b by (simp add: setProxLimit_def)
      moreover have "nodes (buckets k ! nat r) \<noteq> []" using bucket_atD[OF b] ne by auto
      ultimately show ?thesis using others unfolding below_nonempty_def by auto
    next
      case False
      then show ?thesis using adj s True b by (simp add: setProxLimit_def)
    qed
  next
    case False
    then show ?thesis using adj s by (simp add: setProxLimit_def)
  qed
qed

lemma On_below:
  assumes "On n cb k = Some (k', e)" "below_nonempty k"
  shows "below_nonempty k'"
  using assms(1)
proof (cases rule: On_cases)
  case (rejected r d r2 msg)
  then show ?thesis using assms(2) by (simp add: below_nonempty_def)
next
  case (inserted r d r2)
  from inserted(2) show ?thesis
  proof (cases rule: On_insert_cases)
    case (full b)
    then show ?thesis using assms(2) by (simp add: below_nonempty_def)
  next
    case (added b pl ps)
    let ?i = "proximityBin k (Addr n)"
    have b: "bucket_at (buckets k) ?i = Some b" using added(1) by simp
    note bd = bucket_atD[OF b]
    show ?thesis
    proof (rule setProxLimit_below[OF added(4)])
      show "0 \<le> ?i" using bd by simp
    qed (use assms(2) bd in \<open>auto simp: below_nonempty_def nth_list_update\<close>)
  qed
qed

lemma Off_below:
  assumes "Off n cb k = Some (k', e)" "below_nonempty k"
  shows "below_nonempty k'"
  using assms(1)
proof (cases rule: Off_cases)
  case (absent b)
  then show ?thesis using assms(2) by simp
next
  case (removed b ns pl ps r)
  let ?i = "proximityBin k (Addr n)"
  note bd = bucket_atD[OF removed(1)]
  have "below_nonempty (k\<lparr>buckets := (buckets k)[nat ?i := b\<lparr>nodes := ns\<rparr>],
                   count := count k - 1, proxLimit := pl, proxSize := ps\<rparr>)"
  proof (rule setProxLimit_below[OF removed(6)])
    show "0 \<le> ?i" using bd by simp
  qed (use assms(2) bd in \<open>auto simp: below_nonempty_def nth_list_update\<close>)
  then show ?thesis using removed(3) by (simp add: below_nonempty_def)
qed

lemma run_ops_below:
  "below_nonempty k \<Longrightarrow> run_ops ops k = Some k' \<Longrightarrow> below_nonempty k'"
proof (induction ops arbitrary: k)
  case Nil
  then show ?case by simp
next
  case (Cons x xs)
  then obtain k1 e where a: "apply_op x k = Some (k1, e)" and r: "run_ops xs k1 = Some k'"
    by (auto split: option.splits)
  have "below_nonempty k1"
    using a On_below[OF _ Cons.prems(1)] Off_below[OF _ Cons.prems(1)] by (cases x) auto
  then show ?case using Cons.IH r by blast
qed

lemma New_below: "New a ps = Some k \<Longrightarrow> below_nonempty k"
  by (auto simp: New_def Let_def below_nonempty_def split: if_splits)

lemma mset_eq_of_subset_size:
  assumes "A \<subseteq># B" "Nat.size B \<le> Nat.size A"
  shows "A = B"
proof (rule ccontr)
  assume "A \<noteq> B"
  then have "A \<subset># B" using assms(1) by (simp add: subset_mset.less_le)
  then have "Nat.size A < Nat.size B" by (rule mset_subset_size)
  then show False using assms(2) by simp
qed

lemma int_sum_list_map: "int (sum_list (map f xs)) = sum_list (map (\<lambda>x. int (f x)) xs)"
  by (induction xs) simp_all

lemma length_nodes_from: "int (length (nodes_from k j)) = peers_from k j"
  by (simp add: nodes_from_def peers_from_def length_concat comp_def int_sum_list_map)

lemma FindClosest_zero:
  assumes inv: "table_inv k" and below: "below_nonempty k"
  shows "\<exists>r. FindClosest k t 0 = Some r
           \<and> sorted_wrt (\<lambda>x y. ProxCmp t (Addr x) (Addr y) \<le> 0) r
           \<and> int (length r) \<le> 1000 \<and> int (length r) \<le> bucket_total k
           \<and> mset r \<subseteq># mset (nodes_from k 0)
           \<and> (0 < bucket_total k \<longrightarrow> r \<noteq> [])
           \<and> (proximityBin k t < proxLimit k \<longrightarrow>
                mset r \<subseteq># mset (nodes (buckets k ! nat (proximityBin k t)))
                \<and> int (length r) = min 1000 (int (length (nodes (buckets k ! nat (proximityBin k t))))))
           \<and> (proxLimit k \<le> proximityBin k t \<and> 0 < prox_total k \<longrightarrow>
                mset r \<subseteq># mset (nodes_from k (proxLimit k))
                \<and> int (length r) = min 1000 (prox_total k))"
proof -
  let ?i = "proximityBin k t"
  let ?r0 = "\<lparr>h_nodes = [], target = t\<rparr>"
  have len: "int (length (buckets k)) = MaxProx (params k) + 1"
    and pl: "0 \<le> proxLimit k" and mp: "0 \<le> MaxProx (params k)"
    using inv by (simp_all add: table_inv_def)
  have i: "0 \<le> ?i" "?i \<le> MaxProx (params k)"
    using proximityBin_range[OF mp, of t] by simp_all
  have r0: "result_inv t 1000 ?r0 0"
    by (simp add: result_inv_def sorted_to_def)
  have "\<exists>r' m. (if ?i \<ge> proxLimit k
            then FindClosest_loop k 0 1000 (proxLimit k) (MaxProx (params k)) True 0 ?r0
            else FindClosest_loop k 0 1000 ?i ?i False 0 ?r0) = Some r'
          \<and> result_inv t 1000 r' m \<and> m \<le> bucket_total k \<and> (0 < bucket_total k \<longrightarrow> 0 < m)
          \<and> mset (h_nodes r') \<subseteq># mset (nodes_from k 0)
          \<and> (?i < proxLimit k \<longrightarrow> m = int (length (nodes (buckets k ! nat ?i)))
                 \<and> mset (h_nodes r') \<subseteq># mset (nodes (buckets k ! nat ?i)))
          \<and> (proxLimit k \<le> ?i \<and> 0 < prox_total k \<longrightarrow> m = prox_total k
                 \<and> mset (h_nodes r') \<subseteq># mset (nodes_from k (proxLimit k)))"
  proof (cases "?i \<ge> proxLimit k")
    case True
    have "0 = peers_from k (MaxProx (params k) + 1)"
      using peers_from_end[of k "MaxProx (params k) + 1"] len by simp
    from FindClosest_loop_down[OF len _ pl mp _ this r0, of 0]
    obtain r' s where rs:
      "FindClosest_loop k 0 1000 (proxLimit k) (MaxProx (params k)) True 0 ?r0 = Some r'"
      "result_inv t 1000 r' (peers_from k s)" "0 \<le> s" "s \<le> proxLimit k"
      "brk k 0 1000 s"
      "\<forall>s'. s < s' \<and> s' \<le> proxLimit k \<and> s' \<le> MaxProx (params k) \<longrightarrow> \<not> brk k 0 1000 s'"
      "mset (h_nodes r') \<subseteq># mset (nodes_from k s)"
      by auto
    have pos: "0 < bucket_total k \<longrightarrow> 0 < peers_from k s"
      using rs(5) peers_from_0[of k] by (auto simp: brk_def)
    have all: "mset (h_nodes r') \<subseteq># mset (nodes_from k 0)"
      using rs(7) nodes_from_subset[of k s] by (rule subset_mset.order_trans)
    have s: "s = proxLimit k" if "0 < prox_total k"
    proof -
      have "brk k 0 1000 (proxLimit k)"
        using that by (simp add: brk_def peers_from_proxLimit)
      then have "\<not> s < proxLimit k"
        using rs(6) inv by (auto simp: table_inv_def)
      then show ?thesis using rs(4) by simp
    qed
    have "0 < prox_total k \<longrightarrow> peers_from k s = prox_total k
            \<and> mset (h_nodes r') \<subseteq># mset (nodes_from k (proxLimit k))"
      using s rs(7) by (auto simp: peers_from_proxLimit)
    then show ?thesis
      using True rs(1,2) pos all peers_from_le_total[of k s]
      by (intro exI[of _ r'] exI[of _ "peers_from k s"]) auto
  next
    case False
    let ?b = "buckets k ! nat ?i"
    let ?r1 = "foldl (\<lambda>h x. push h x 1000) ?r0 (nodes ?b)"
    have b: "bucket_at (buckets k) ?i = Some ?b"
      using i len by (simp add: bucket_at_def)
    have ne: "nodes ?b \<noteq> []"
      using below False i by (simp add: below_nonempty_def)
    have f: "FindClosest_loop k 0 1000 ?i ?i False 0 ?r0 = Some ?r1"
      using b ne by (subst FindClosest_loop.simps) (simp add: Let_def)
    have ri: "result_inv t 1000 ?r1 (0 + int (length (nodes ?b)))"
      by (rule result_inv_scan[OF r0])
    have le: "int (length (nodes ?b)) \<le> bucket_total k"
      using peers_from_step[of ?i k] i len peers_from_nonneg[of k "?i + 1"]
        peers_from_le_total[of k ?i] by simp
    have ms: "mset (h_nodes ?r1) \<subseteq># mset (nodes ?b)"
      using foldl_push_mset[of 1000 ?r0 "nodes ?b"] by simp
    have "mset (nodes ?b) \<subseteq># mset (nodes_from k ?i)"
      using nodes_from_step[of ?i k] i len by simp
    then have "mset (nodes ?b) \<subseteq># mset (nodes_from k 0)"
      using nodes_from_subset[of k ?i] by (rule subset_mset.order_trans)
    with ms have all: "mset (h_nodes ?r1) \<subseteq># mset (nodes_from k 0)"
      by (rule subset_mset.order_trans)
    show ?thesis
      using False ne f ri le ms all
      by (intro exI[of _ ?r1] exI[of _ "int (length (nodes ?b))"]) auto
  qed
  then obtain r' m where r': "(if ?i \<ge> proxLimit k
            then FindClosest_loop k 0 1000 (proxLimit k) (MaxProx (params k)) True 0 ?r0
            else FindClosest_loop k 0 1000 ?i ?i False 0 ?r0) = Some r'"
     "result_inv t 1000 r' m" "m \<le> bucket_total k" "0 < bucket_total k \<longrightarrow> 0 < m"
     "mset (h_nodes r') \<subseteq># mset (nodes_from k 0)"
     "?i < proxLimit k \<longrightarrow> m = int (length (nodes (buckets k ! nat ?i)))
                 \<and> mset (h_nodes r') \<subseteq># mset (nodes (buckets k ! nat ?i))"
     "proxLimit k \<le> ?i \<and> 0 < prox_total k \<longrightarrow> m = prox_total k
                 \<and> mset (h_nodes r') \<subseteq># mset (nodes_from k (proxLimit k))"
    by blast
  have f: "FindClosest k t 0 = Some (h_nodes r')"
    using r'(1) by (simp add: FindClosest_def Let_def)
  have srt: "sorted_wrt (\<lambda>x y. ProxCmp t (Addr x) (Addr y) \<le> 0) (h_nodes r')"
    using r'(2) by (simp add: result_inv_def sorted_to_ProxCmp)
  have l: "int (length (h_nodes r')) = min m 1000"
    using r'(2) by (simp add: result_inv_def)
  have "0 < bucket_total k \<longrightarrow> h_nodes r' \<noteq> []"
    using l r'(4) by auto
  then show ?thesis
    using f srt l r'(3,5,6,7) by (intro exI[of _ "h_nodes r'"]) (auto simp: min_def)
qed

text \<open>
  C3 (as amended). In every table reached from a fresh one (MaxProx not negative) by
  On/Off operations, for every target and every k > 0, FindClosest(target, k) returns a
  list sorted by ascending distance to the target whose length is the minimum of k and
  the number of peers held in the buckets; when On was never called for an address
  that a bucket already held, that is the minimum of k and count.
\<close>

theorem FindClosest_sorted_and_sized:
  assumes "New a ps = Some k0" "0 \<le> MaxProx ps" "run_ops ops k0 = Some k" "0 < mx"
  shows "\<exists>r. FindClosest k t mx = Some r
           \<and> sorted_wrt (\<lambda>x y. ProxCmp t (Addr x) (Addr y) \<le> 0) r
           \<and> int (length r) = min mx (bucket_total k)
           \<and> (On_once ops k0 \<longrightarrow> int (length r) = min mx (count k))"
proof -
  have inv: "table_inv k" using reachable_table_inv[OF assms(1,3,2)] .
  have "On_once ops k0 \<Longrightarrow> count k = bucket_total k"
    using run_ops_counted[OF New_counted[OF assms(1)] _ assms(3)] by (simp add: counted_def)
  then show ?thesis
    using FindClosest_positive[OF inv assms(4), of t] by auto
qed

theorem FindClosest_sorted_and_sized_witness:
  "New [0] NewKadParams \<noteq> None \<and> 0 \<le> MaxProx NewKadParams
   \<and> run_ops [OpOn (peer 0x80) None, OpOn (peer 0xF8) None, OpOn (peer 0xE0) None,
               OpOn (peer 0x10) None] (the (New [0] NewKadParams)) \<noteq> None
   \<and> (0::int) < 3
   \<and> FindClosest
        (the (run_ops [OpOn (peer 0x80) None, OpOn (peer 0xF8) None, OpOn (peer 0xE0) None,
                       OpOn (peer 0x10) None] (the (New [0] NewKadParams)))) [0xF0] 3
       = Some [peer 0xF8, peer 0xE0, peer 0x80]
   \<and> (\<exists>r. FindClosest
        (the (run_ops [OpOn (peer 0x80) None, OpOn (peer 0xF8) None, OpOn (peer 0xE0) None,
                       OpOn (peer 0x10) None] (the (New [0] NewKadParams)))) [0xF0] 3 = Some r
        \<and> sorted_wrt (\<lambda>x y. ProxCmp [0xF0] (Addr x) (Addr y) \<le> 0) r)"
proof -
  let ?ops = "[OpOn (peer 0x80) None, OpOn (peer 0xF8) None, OpOn (peer 0xE0) None,
               OpOn (peer 0x10) None]"
  let ?fresh = "the (New [0] NewKadParams)"
  let ?tbl = "the (run_ops ?ops ?fresh)"
  have n: "New [0] NewKadParams = Some ?fresh"
    by (simp add: New_def NewKadParams_def Let_def)
  have n': "New [0] NewKadParams \<noteq> None"
    by (simp add: New_def NewKadParams_def Let_def)
  have m: "0 \<le> MaxProx NewKadParams" by (simp add: NewKadParams_def)
  have r': "run_ops ?ops ?fresh \<noteq> None"
    by code_simp
  then have r: "run_ops ?ops ?fresh = Some ?tbl" by simp
  have p: "(0::int) < 3" by simp
  have v: "FindClosest ?tbl [0xF0] 3 = Some [peer 0xF8, peer 0xE0, peer 0x80]"
    by code_simp
  have "\<exists>r. FindClosest ?tbl [0xF0] 3 = Some r
        \<and> sorted_wrt (\<lambda>x y. ProxCmp [0xF0] (Addr x) (Addr y) \<le> 0) r"
    using FindClosest_sorted_and_sized[OF n m r p, of "[0xF0]"] by blast
  then show ?thesis using n' m r' p v by blast
qed

theorem FindClosest_sorted_and_sized_counterexample:
  "map_option length
     (FindClosest
        (the (run_ops [OpOn (peer 0x80) None, OpOn (peer 0x81) None, OpOn (peer 0x80) None,
                       OpOff (peer 0x80) None] (the (New [0] NewKadParams)))) [0x41] 5) = Some 1
   \<and> map_option count
       (run_ops [OpOn (peer 0x80) None, OpOn (peer 0x81) None, OpOn (peer 0x80) None,
                 OpOff (peer 0x80) None] (the (New [0] NewKadParams))) = Some 2"
  by code_simp

text \<open>
  C4 (as amended). In every table reached from a fresh one (MaxProx not negative),
  FindClosest(target, 0) returns a list sorted by ascending distance to the target,
  of at most 1000 peers, all taken from the buckets (none more often than the buckets
  hold it), not empty when a bucket holds a peer. It stops at the target's bin: when
  that bin is below proxLimit the result consists of peers of that one bucket, all of
  them when the bucket holds at most 1000; when it is not and the buckets from
  proxLimit upward hold a peer, the result consists of peers of these buckets, all of
  them when they hold at most 1000. So its length is not count in general.
\<close>

theorem FindClosest_zero_is_one_bin:
  assumes "New a ps = Some k0" "0 \<le> MaxProx ps" "run_ops ops k0 = Some k"
  shows "\<exists>r. FindClosest k t 0 = Some r
           \<and> sorted_wrt (\<lambda>x y. ProxCmp t (Addr x) (Addr y) \<le> 0) r
           \<and> int (length r) \<le> 1000 \<and> int (length r) \<le> bucket_total k
           \<and> mset r \<subseteq># mset (nodes_from k 0)
           \<and> (0 < bucket_total k \<longrightarrow> r \<noteq> [])
           \<and> (proximityBin k t < proxLimit k \<longrightarrow>
                mset r \<subseteq># mset (nodes (buckets k ! nat (proximityBin k t)))
                \<and> int (length r) = min 1000 (int (length (nodes (buckets k ! nat (proximityBin k t)))))
                \<and> (length (nodes (buckets k ! nat (proximityBin k t))) \<le> 1000 \<longrightarrow>
                       mset r = mset (nodes (buckets k ! nat (proximityBin k t)))))
           \<and> (proxLimit k \<le> proximityBin k t \<and> 0 < prox_total k \<longrightarrow>
                mset r \<subseteq># mset (nodes_from k (proxLimit k))
                \<and> int (length r) = min 1000 (prox_total k)
                \<and> (prox_total k \<le> 1000 \<longrightarrow> mset r = mset (nodes_from k (proxLimit k))))"
proof -
  from FindClosest_zero[OF reachable_table_inv[OF assms(1,3,2)]
      run_ops_below[OF New_below[OF assms(1)] assms(3)], of t]
  obtain r where r: "FindClosest k t 0 = Some r"
    "sorted_wrt (\<lambda>x y. ProxCmp t (Addr x) (Addr y) \<le> 0) r"
    "int (length r) \<le> 1000" "int (length r) \<le> bucket_total k"
    "mset r \<subseteq># mset (nodes_from k 0)" "0 < bucket_total k \<longrightarrow> r \<noteq> []"
    "proximityBin k t < proxLimit k \<longrightarrow>
       mset r \<subseteq># mset (nodes (buckets k ! nat (proximityBin k t)))
       \<and> int (length r) = min 1000 (int (length (nodes (buckets k ! nat (proximityBin k t)))))"
    "proxLimit k \<le> proximityBin k t \<and> 0 < prox_total k \<longrightarrow>
       mset r \<subseteq># mset (nodes_from k (proxLimit k))
       \<and> int (length r) = min 1000 (prox_total k)"
    by blast
  have e1: "mset r = mset (nodes (buckets k ! nat (proximityBin k t)))"
    if "proximityBin k t < proxLimit k" "length (nodes (buckets k ! nat (proximityBin k t))) \<le> 1000"
  proof (rule mset_eq_of_subset_size)
    show "mset r \<subseteq># mset (nodes (buckets k ! nat (proximityBin k t)))"
      using r(7) that(1) by blast
    have "int (length r) = int (length (nodes (buckets k ! nat (proximityBin k t))))"
      using r(7) that by linarith
    then show "Nat.size (mset (nodes (buckets k ! nat (proximityBin k t)))) \<le> Nat.size (mset r)"
      by simp
  qed
  have e2: "mset r = mset (nodes_from k (proxLimit k))"
    if "proxLimit k \<le> proximityBin k t" "0 < prox_total k" "prox_total k \<le> 1000"
  proof (rule mset_eq_of_subset_size)
    show "mset r \<subseteq># mset (nodes_from k (proxLimit k))"
      using r(8) that by blast
    have "int (length (nodes_from k (proxLimit k))) = prox_total k"
      by (simp add: length_nodes_from peers_from_proxLimit)
    moreover have "int (length r) = prox_total k"
      using r(8) that by linarith
    ultimately show "Nat.size (mset (nodes_from k (proxLimit k))) \<le> Nat.size (mset r)"
      by simp
  qed
  show ?thesis
    using r e1 e2 by (intro exI[of _ r]) blast
qed

theorem FindClosest_zero_is_one_bin_witness:
  "New [0] NewKadParams \<noteq> None \<and> 0 \<le> MaxProx NewKadParams
   \<and> run_ops [OpOn (peer 0x80) None, OpOn (peer 0x40) None, OpOn (peer 0x41) None,
               OpOn (peer 0x42) None, OpOn (peer 0x20) None] (the (New [0] NewKadParams)) \<noteq> None
   \<and> (\<exists>r. FindClosest
          (the (run_ops [OpOn (peer 0x80) None, OpOn (peer 0x40) None, OpOn (peer 0x41) None,
               OpOn (peer 0x42) None, OpOn (peer 0x20) None] (the (New [0] NewKadParams))))
          [0x41] 0 = Some r \<and> int (length r) \<le> 1000)
   \<and> FindClosest
          (the (run_ops [OpOn (peer 0x80) None, OpOn (peer 0x40) None, OpOn (peer 0x41) None,
               OpOn (peer 0x42) None, OpOn (peer 0x20) None] (the (New [0] NewKadParams))))
          [0x41] 0 = Some [peer 0x41, peer 0x40, peer 0x42, peer 0x20]"
proof -
  let ?ops = "[OpOn (peer 0x80) None, OpOn (peer 0x40) None, OpOn (peer 0x41) None,
               OpOn (peer 0x42) None, OpOn (peer 0x20) None]"
  let ?fresh = "the (New [0] NewKadParams)"
  let ?tbl = "the (run_ops ?ops ?fresh)"
  have n: "New [0] NewKadParams = Some ?fresh"
    by (simp add: New_def NewKadParams_def Let_def)
  have n': "New [0] NewKadParams \<noteq> None"
    by (simp add: New_def NewKadParams_def Let_def)
  have m: "0 \<le> MaxProx NewKadParams" by (simp add: NewKadParams_def)
  have r': "run_ops ?ops ?fresh \<noteq> None"
    by code_simp
  then have r: "run_ops ?ops ?fresh = Some ?tbl" by simp
  have v: "FindClosest ?tbl [0x41] 0 = Some [peer 0x41, peer 0x40, peer 0x42, peer 0x20]"
    by code_simp
  have "\<exists>r. FindClosest ?tbl [0x41] 0 = Some r \<and> int (length r) \<le> 1000"
    using FindClosest_zero_is_one_bin[OF n m r, of "[0x41]"] by blast
  then show ?thesis using n' m r' v by blast
qed

theorem FindClosest_zero_is_one_bin_counterexample:
  "map_option length
     (FindClosest
        (the (run_ops [OpOn (peer 0x80) None, OpOn (peer 0x40) None, OpOn (peer 0x41) None,
               OpOn (peer 0x42) None, OpOn (peer 0x20) None] (the (New [0] NewKadParams))))
        [0x80] 0) = Some 1
   \<and> map_option count
       (run_ops [OpOn (peer 0x80) None, OpOn (peer 0x40) None, OpOn (peer 0x41) None,
               OpOn (peer 0x42) None, OpOn (peer 0x20) None] (the (New [0] NewKadParams)))
     = Some 5"
  by code_simp


section \<open>The cache: entry count\<close>

lemma same_counts_refl [simp]: "same_counts s s"
  by (simp add: same_counts_def)

lemma same_counts_trans: "same_counts s s1 \<Longrightarrow> same_counts s1 s2 \<Longrightarrow> same_counts s s2"
  by (simp add: same_counts_def)

lemma same_counts_put_node [simp]: "same_counts (put_node r nd s) s' \<longleftrightarrow> same_counts s s'"
  by (simp add: same_counts_def put_node_def)

lemma same_counts_put_node2 [simp]: "same_counts s (put_node r nd s') \<longleftrightarrow> same_counts s s'"
  by (simp add: same_counts_def put_node_def)

lemma newTreeNode_counts:
  "newTreeNode b par pidx s = Some (r, s') \<Longrightarrow> same_counts s s'"
  by (auto simp: newTreeNode_def Let_def same_counts_def put_node_def
      split: option.splits bind_splits if_splits)

lemma update_access_loop_counts:
  assumes "update_access_loop oa node aidx a s = Some s'"
  shows "same_counts s s'"
proof (rule update_access_loop.raw_induct[where P = "\<lambda>oa node aidx a s s'. same_counts s s'", OF _ assms],
    goal_cases)
  case (1 f oa node aidx a s s')
  from 1(2) show ?case
    by (auto simp: Let_def split: bind_splits if_splits option.splits dest!: 1(1))
qed

lemma update_access_counts:
  "update_access node a s = Some s' \<Longrightarrow> same_counts s s'"
  by (auto simp: update_access_def split: bind_splits dest: update_access_loop_counts)

lemma child_or_new_counts:
  "child_or_new node l s = Some (c, s') \<Longrightarrow> same_counts s s'"
  by (auto simp: child_or_new_def split: bind_splits option.splits dest: newTreeNode_counts)

lemma add_descend_counts:
  assumes "add_descend k node bitpos s = Some r"
  shows "same_counts s (snd (snd r))"
proof (rule add_descend.raw_induct[where P = "\<lambda>k node bitpos s r. same_counts s (snd (snd r))", OF _ assms],
    goal_cases)
  case (1 f k node bitpos s r)
  from 1(2) show ?case
    by (auto split: bind_splits option.splits dest: 1(1) newTreeNode_counts)
qed

lemma add_split_counts:
  assumes "add_split k node bitpos s = Some r"
  shows "same_counts s (snd r)"
proof (rule add_split.raw_induct[where P = "\<lambda>k node bitpos s r. same_counts s (snd r)", OF _ assms],
    goal_cases)
  case (1 f k node bitpos s r)
  show ?case
  proof (cases "heap s node")
    case None
    then show ?thesis using 1(2) by simp
  next
    case (Some nd)
    show ?thesis
    proof (cases "entry nd")
      case None
      then show ?thesis using 1(2) Some by auto
    next
      case e: (Some e)
      from 1(2) Some e show ?thesis
        by (auto simp: Let_def same_counts_def put_node_def split: bind_splits
            dest!: child_or_new_counts update_access_counts 1(1))
    qed
  qed
qed

lemma add_entry_cnt:
  assumes "add c s = Some s'"
  shows "entry_cnt s' = entry_cnt s \<or> entry_cnt s' = entry_cnt s + 1"
proof -
  let ?s0 = "s\<lparr>access_cnt := access_cnt s + 1\<rparr>"
  from assms obtain root node bitpos s1 nd where
    d: "add_descend (Key c) root 0 ?s0 = Some (node, bitpos, s1)" and nd: "heap s1 node = Some nd"
    and m: "memtree ?s0 = Some root"
    by (auto simp: add_def Let_def split: bind_splits)
  have e1: "entry_cnt s1 = entry_cnt s"
    using add_descend_counts[OF d] by (simp add: same_counts_def)
  show ?thesis
  proof (cases "entry nd")
    case None
    then obtain s2 where u: "update_access node (access_cnt s1) (put_node node (nd\<lparr>entry := Some c\<rparr>) s1) = Some s2"
      and s': "s' = s2\<lparr>entry_cnt := entry_cnt s2 + 1\<rparr>"
      using assms d nd m by (auto simp: add_def Let_def split: bind_splits)
    have "entry_cnt s2 = entry_cnt s1"
      using update_access_counts[OF u] by (simp add: same_counts_def put_node_def)
    then show ?thesis using s' e1 by simp
  next
    case (Some e)
    show ?thesis
    proof (cases "Key e = Key c")
      case True
      then have "update_access node (access_cnt s1) s1 = Some s'"
        using assms d nd Some m by (auto simp: add_def Let_def split: bind_splits)
      then show ?thesis using update_access_counts e1 by (auto simp: same_counts_def)
    next
      case False
      then obtain node' s2 nd' s3 where sp: "add_split (Key c) node bitpos s1 = Some (node', s2)"
        and u: "update_access node' (access_cnt s2) (put_node node' (nd'\<lparr>entry := Some c\<rparr>) s2) = Some s3"
        and s': "s' = s3\<lparr>entry_cnt := entry_cnt s3 + 1\<rparr>"
        using assms d nd Some m by (auto simp: add_def Let_def split: bind_splits)
      have "entry_cnt s2 = entry_cnt s1" using add_split_counts[OF sp] by (simp add: same_counts_def)
      moreover have "entry_cnt s3 = entry_cnt s2"
        using update_access_counts[OF u] by (simp add: same_counts_def put_node_def)
      ultimately show ?thesis using s' e1 by simp
    qed
  qed
qed

lemma find_counts:
  assumes "find k s = Some (r, s')"
  shows "entry_cnt s' = entry_cnt s \<and> memtree s' = memtree s"
  using assms
  by (auto simp: find_def Let_def same_counts_def split: bind_splits option.splits if_splits
      dest!: update_access_counts)

lemma raise_min_counts: "raise_min node aidx aa s = Some s' \<Longrightarrow> same_counts s s'"
  by (auto simp: raise_min_def split: bind_splits if_splits)

lemma remove_descend_counts:
  assumes "remove_descend node s = Some r"
  shows "same_counts s (snd r)"
proof (rule remove_descend.raw_induct[where P = "\<lambda>node s r. same_counts s (snd r)", OF _ assms],
    goal_cases)
  case (1 f node s r)
  from 1(2) show ?case
    by (auto simp: Let_def split: bind_splits option.splits if_splits dest!: 1(1))
qed

lemma remove_ascend_counts:
  assumes "remove_ascend node aidx s = Some s'"
  shows "same_counts s s'"
proof (rule remove_ascend.raw_induct[where P = "\<lambda>node aidx s s'. same_counts s s'", OF _ assms],
    goal_cases)
  case (1 f node aidx s s')
  from 1(2) show ?case
    by (auto simp: Let_def same_counts_def split: bind_splits option.splits if_splits
        dest!: 1(1) raise_min_counts)
qed

lemma remove_oldest_entry_cnt:
  assumes "remove_oldest s = Some s'"
  shows "entry_cnt s' = entry_cnt s - 1"
  using assms
  by (auto simp: remove_oldest_def Let_def same_counts_def put_node_def split: bind_splits
      dest!: remove_descend_counts remove_ascend_counts)

lemma Put_bounded:
  assumes "Put c s = Some s'" "unat (entry_cnt s) \<le> maxEntries"
  shows "unat (entry_cnt s') \<le> maxEntries"
proof -
  have inc: "unat (x + 1) \<le> unat x + 1" for x :: "64 word"
    by (simp add: unat_word_ariths)
  show ?thesis
  proof (cases "unat (entry_cnt s) \<ge> maxEntries")
    case True
    then obtain s1 where r: "remove_oldest s = Some s1" and a: "add c s1 = Some s'"
      using assms(1) by (auto simp: Put_def split: bind_splits)
    have "entry_cnt s \<noteq> 0" using True by (auto simp: maxEntries_def)
    then have "unat (entry_cnt s1) = unat (entry_cnt s) - 1"
      using remove_oldest_entry_cnt[OF r] by (simp add: unat_minus_one)
    then have "unat (entry_cnt s1) + 1 \<le> maxEntries"
      using assms(2) True by (simp add: maxEntries_def)
    then show ?thesis using add_entry_cnt[OF a] inc[of "entry_cnt s1"] by auto
  next
    case False
    then have a: "add c s = Some s'" using assms(1) by (simp add: Put_def)
    then show ?thesis using add_entry_cnt[OF a] inc[of "entry_cnt s"] False by auto
  qed
qed

lemma run_cache_bounded:
  "run_cache ops s = Some s' \<Longrightarrow> unat (entry_cnt s) \<le> maxEntries \<Longrightarrow>
     unat (entry_cnt s') \<le> maxEntries"
proof (induction ops arbitrary: s)
  case Nil
  then show ?case by simp
next
  case (Cons x xs)
  show ?case
  proof (cases x)
    case (OpPut c)
    then obtain s1 where "Put c s = Some s1" "run_cache xs s1 = Some s'"
      using Cons.prems(1) by (auto split: bind_splits)
    then show ?thesis using Cons.IH Put_bounded Cons.prems(2) by blast
  next
    case (OpGet c)
    then obtain s1 where g: "Get c s = Some s1" and r: "run_cache xs s1 = Some s'"
      using Cons.prems(1) by (auto split: bind_splits)
    have "entry_cnt s1 = entry_cnt s"
      using g find_counts by (auto simp: Get_def)
    then show ?thesis using Cons.IH[OF r] Cons.prems(2) by simp
  qed
qed

lemma Init_entry_cnt: "Init zero_storage = Some s \<Longrightarrow> entry_cnt s = 0"
  by (auto simp: Init_def zero_storage_def split: bind_splits dest!: newTreeNode_counts
      simp: same_counts_def)

text \<open>
  C8. In every state of the cache reached from the initialised empty cache by Put and
  Get operations, entry_cnt is at most MaxEntries; and a Put on a full cache is
  remove_oldest followed by add.
\<close>

theorem entry_cnt_at_most_maxEntries:
  assumes "Init zero_storage = Some s0" "run_cache ops s0 = Some s"
  shows "unat (entry_cnt s) \<le> maxEntries
         \<and> (maxEntries \<le> unat (entry_cnt s) \<longrightarrow> Put c s = remove_oldest s \<bind> add c)"
  using run_cache_bounded[OF assms(2)] Init_entry_cnt[OF assms(1)]
  by (simp add: Put_def)


theorem entry_cnt_at_most_maxEntries_witness:
  "Init zero_storage \<noteq> None
   \<and> map_option entry_cnt
       (run_cache [OpPut (chunk_of 5 0), OpPut (chunk_of 6 0)] (the (Init zero_storage))) = Some 2
   \<and> unat (2 :: 64 word) \<le> maxEntries"
proof -
  let ?ops = "[OpPut (chunk_of 5 0), OpPut (chunk_of 6 0)]"
  have i': "Init zero_storage \<noteq> None"
    by (simp add: Init_def zero_storage_def newTreeNode_def Let_def)
  then have i: "Init zero_storage = Some (the (Init zero_storage))" by simp
  have v: "map_option entry_cnt (run_cache ?ops (the (Init zero_storage))) = Some 2"
    by (simp add: Put_def add_def update_access_def update_access_loop.simps add_descend.simps
        newTreeNode_def put_node_def get_access_def set_access_def get_subtree_def
        bits_def bits_loop.simps chunk_of_def Init_def zero_storage_def
        maxEntries_def memTreeLW_def memTreeFLW_def Let_def)
  then obtain s where r: "run_cache ?ops (the (Init zero_storage)) = Some s" and e: "entry_cnt s = 2"
    by auto
  from entry_cnt_at_most_maxEntries[OF i r] e have "unat (2 :: 64 word) \<le> maxEntries"
    by simp
  then show ?thesis using i' v by blast
qed

end
